theory Spec2Isabelle
  imports Complex_Main "HOL-Library.Monad_Syntax"
begin

section \<open>utils.compareArrays\<close>

text \<open>
  The three flags are the numbers the source attaches to the function:
  \<^verbatim>\<open>utils.compareArrays.SAME = 0\<close>, \<^verbatim>\<open>PREFIX = 1\<close>, \<^verbatim>\<open>DIFFERENT = 2\<close>.
\<close>

definition SAME :: nat where
  "SAME = 0"

definition PREFIX :: nat where
  "PREFIX = 1"

definition DIFFERENT :: nat where
  "DIFFERENT = 2"

text \<open>
  The \<^verbatim>\<open>for\<close> loop of \<^verbatim>\<open>compareArrays\<close>, started at index \<open>i\<close>, followed by the code after
  the loop. The loop reads \<open>a[i]\<close> and \<open>b[i]\<close> only below \<open>minLen\<close>, so every read is in
  range. The elements are compared with \<^verbatim>\<open>!=\<close>, the loose inequality of JavaScript. It is
  the language that says what \<^verbatim>\<open>!=\<close> answers on two values, so the operator is the
  parameter \<open>ne\<close> of the model. It is not the negation of being the same value: \<^verbatim>\<open>NaN != NaN\<close>
  is true, and \<^verbatim>\<open>1 != '1'\<close> is false.
\<close>

function compareArraysFrom :: "('a \<Rightarrow> 'a \<Rightarrow> bool) \<Rightarrow> 'a list \<Rightarrow> 'a list \<Rightarrow> nat \<Rightarrow> nat" where
  "compareArraysFrom ne a b i =
     (let minLen = min (length a) (length b) in
      if i < minLen then
        (if ne (a ! i) (b ! i) then DIFFERENT else compareArraysFrom ne a b (Suc i))
      else if length a = length b then SAME
      else if length a < length b then PREFIX
      else DIFFERENT)"
  by pat_completeness auto
termination
  by (relation "measure (\<lambda>(ne, a, b, i). min (length a) (length b) - i)") auto

definition compareArrays :: "('a \<Rightarrow> 'a \<Rightarrow> bool) \<Rightarrow> 'a list \<Rightarrow> 'a list \<Rightarrow> nat" where
  "compareArrays ne a b = compareArraysFrom ne a b 0"

declare compareArraysFrom.simps [simp del]

text \<open>
  \<^verbatim>\<open>!=\<close> on two numbers (the infinities are left out): true when one of them is NaN,
  and otherwise when the values differ.
\<close>

datatype jsnumber = NotANumber | Finite real

definition looseNotEqual :: "jsnumber \<Rightarrow> jsnumber \<Rightarrow> bool" where
  "looseNotEqual x y =
     (case x of
        NotANumber \<Rightarrow> True
      | Finite u \<Rightarrow> (case y of NotANumber \<Rightarrow> True | Finite v \<Rightarrow> u \<noteq> v))"

lemma flags_distinct:
  "SAME \<noteq> PREFIX" "SAME \<noteq> DIFFERENT" "PREFIX \<noteq> DIFFERENT"
  "PREFIX \<noteq> SAME" "DIFFERENT \<noteq> SAME" "DIFFERENT \<noteq> PREFIX"
  by (simp_all add: SAME_def PREFIX_def DIFFERENT_def)

text \<open>
  What the loop computes from index \<open>i\<close> on: \<open>DIFFERENT\<close> when \<^verbatim>\<open>!=\<close> holds somewhere on
  the common part from \<open>i\<close> on, and what the lengths say otherwise.
\<close>

lemma compareArraysFrom_char:
  "compareArraysFrom ne a b i =
     (if \<exists>j. i \<le> j \<and> j < min (length a) (length b) \<and> ne (a ! j) (b ! j) then DIFFERENT
      else if length a = length b then SAME
      else if length a < length b then PREFIX
      else DIFFERENT)"
proof (induction ne a b i rule: compareArraysFrom.induct)
  case (1 ne a b i)
  show ?case
  proof (cases "i < min (length a) (length b)")
    case False
    then show ?thesis
      by (subst compareArraysFrom.simps) auto
  next
    case inrange: True
    show ?thesis
    proof (cases "ne (a ! i) (b ! i)")
      case True
      with inrange show ?thesis
        by (subst compareArraysFrom.simps) auto
    next
      case False
      have split: "(\<exists>j. i \<le> j \<and> j < min (length a) (length b) \<and> ne (a ! j) (b ! j))
          \<longleftrightarrow> (\<exists>j. Suc i \<le> j \<and> j < min (length a) (length b) \<and> ne (a ! j) (b ! j))"
        using False by (metis Suc_leI le_neq_implies_less Suc_leD)
      from inrange False have
        "compareArraysFrom ne a b i = compareArraysFrom ne a b (Suc i)"
        by (subst compareArraysFrom.simps) simp
      also have "\<dots> =
         (if \<exists>j. Suc i \<le> j \<and> j < min (length a) (length b) \<and> ne (a ! j) (b ! j)
          then DIFFERENT
          else if length a = length b then SAME
          else if length a < length b then PREFIX
          else DIFFERENT)"
        using "1.IH" [OF refl inrange] False by simp
      finally show ?thesis
        unfolding split .
    qed
  qed
qed

text \<open>
  C10, as stated, fails on arrays that hold NaN: an array of NaN compared with itself
  has the same length and the same element at every index and the result is
  \<open>DIFFERENT\<close>, not \<open>SAME\<close>; and \<open>[NaN]\<close> is a strictly shorter prefix of \<open>[NaN, 1]\<close> and the
  result is \<open>DIFFERENT\<close>, not \<open>PREFIX\<close>.
\<close>

theorem compareArrays_NaN_different:
  "compareArrays looseNotEqual [NotANumber, Finite 1] [NotANumber, Finite 1] = DIFFERENT
   \<and> compareArrays looseNotEqual [NotANumber, Finite 1] [NotANumber, Finite 1] \<noteq> SAME
   \<and> compareArrays looseNotEqual [NotANumber] [NotANumber, Finite 1] = DIFFERENT
   \<and> compareArrays looseNotEqual [NotANumber] [NotANumber, Finite 1] \<noteq> PREFIX"
proof -
  have "\<exists>j. 0 \<le> j \<and> j < min (length [NotANumber, Finite 1]) (length [NotANumber, Finite 1])
      \<and> looseNotEqual ([NotANumber, Finite 1] ! j) ([NotANumber, Finite 1] ! j)"
    by (intro exI [of _ 0]) (simp add: looseNotEqual_def)
  moreover have "\<exists>j. 0 \<le> j \<and> j < min (length [NotANumber]) (length [NotANumber, Finite 1])
      \<and> looseNotEqual ([NotANumber] ! j) ([NotANumber, Finite 1] ! j)"
    by (intro exI [of _ 0]) (simp add: looseNotEqual_def)
  ultimately show ?thesis
    unfolding compareArrays_def compareArraysFrom_char
    by (simp only: if_True flags_distinct not_False_eq_True simp_thms)
qed

text \<open>
  C10, amended. With the elements compared by \<^verbatim>\<open>!=\<close>: \<open>compareArrays a b\<close> is \<open>SAME\<close> exactly
  when the arrays have the same length and \<^verbatim>\<open>a[i] != b[i]\<close> is false at every index,
  \<open>PREFIX\<close> exactly when \<open>a\<close> is strictly shorter than \<open>b\<close> and \<^verbatim>\<open>a[i] != b[i]\<close> is false at
  every index of \<open>a\<close>, and \<open>DIFFERENT\<close> in every other case; whenever \<open>b\<close> is shorter than
  \<open>a\<close>, also when it is a proper prefix of \<open>a\<close>, the result is \<open>DIFFERENT\<close>, not \<open>PREFIX\<close>.
\<close>

theorem compareArrays_relation:
  "(compareArrays ne a b = SAME
      \<longleftrightarrow> length a = length b \<and> (\<forall>i < length a. \<not> ne (a ! i) (b ! i)))
   \<and> (compareArrays ne a b = PREFIX
      \<longleftrightarrow> length a < length b \<and> (\<forall>i < length a. \<not> ne (a ! i) (b ! i)))
   \<and> (compareArrays ne a b = DIFFERENT
      \<longleftrightarrow> \<not> (length a \<le> length b \<and> (\<forall>i < length a. \<not> ne (a ! i) (b ! i))))
   \<and> (length b < length a \<longrightarrow> compareArrays ne a b = DIFFERENT)"
proof -
  have same: "compareArrays ne a b = SAME
      \<longleftrightarrow> length a = length b \<and> (\<forall>i < length a. \<not> ne (a ! i) (b ! i))"
    unfolding compareArrays_def compareArraysFrom_char
    by (auto simp: flags_distinct)
  have pre: "compareArrays ne a b = PREFIX
      \<longleftrightarrow> length a < length b \<and> (\<forall>i < length a. \<not> ne (a ! i) (b ! i))"
    unfolding compareArrays_def compareArraysFrom_char
    by (auto simp: flags_distinct)
  have diff: "compareArrays ne a b = DIFFERENT
      \<longleftrightarrow> \<not> (length a \<le> length b \<and> (\<forall>i < length a. \<not> ne (a ! i) (b ! i)))"
    unfolding compareArrays_def compareArraysFrom_char
    by (auto simp: flags_distinct)
  have longer: "length b < length a \<longrightarrow> compareArrays ne a b = DIFFERENT"
    unfolding diff by simp
  from same pre diff longer show ?thesis
    by blast
qed

theorem compareArrays_relation_witness:
  "compareArrays looseNotEqual [Finite 0, Finite 2] [Finite 0, Finite 2] = SAME
   \<and> compareArrays looseNotEqual [Finite 0, Finite 2] [Finite 0, Finite 2, Finite 1] = PREFIX
   \<and> compareArrays looseNotEqual [Finite 0, Finite 2] [Finite 0] = DIFFERENT
   \<and> compareArrays looseNotEqual [Finite 0, Finite 2] [Finite 1, Finite 3] = DIFFERENT
   \<and> compareArrays looseNotEqual [Finite 0, Finite 2, Finite 1] [Finite 0, Finite 2] = DIFFERENT"
proof -
  have less2: "\<And>P. (\<forall>i < Suc (Suc 0). P i) \<longleftrightarrow> P 0 \<and> P (Suc 0)"
    by (auto simp: less_Suc_eq)
  show ?thesis
    using compareArrays_relation [of looseNotEqual "[Finite 0, Finite 2]" "[Finite 0, Finite 2]"]
      compareArrays_relation
        [of looseNotEqual "[Finite 0, Finite 2]" "[Finite 0, Finite 2, Finite 1]"]
      compareArrays_relation [of looseNotEqual "[Finite 0, Finite 2]" "[Finite 0]"]
      compareArrays_relation [of looseNotEqual "[Finite 0, Finite 2]" "[Finite 1, Finite 3]"]
      compareArrays_relation
        [of looseNotEqual "[Finite 0, Finite 2, Finite 1]" "[Finite 0, Finite 2]"]
    by (simp add: less2 looseNotEqual_def)
qed

section \<open>Collections\<close>

text \<open>
  The toolbar keeps its views in collections of the utilities library
  (\<^verbatim>\<open>view.createCollection()\<close>). A collection is an ordered sequence without
  duplicates. \<^verbatim>\<open>add( item, index )\<close> throws when the item is already in the collection
  and when the index is beyond the end (a negative index, which the library rejects as
  well, is not represented); without an index the item goes to the end.
  \<^verbatim>\<open>remove( item )\<close> throws when the item is missing, and also when it is \<^verbatim>\<open>null\<close>.
  An exception is the value \<open>None\<close>; it propagates through every caller, since the
  toolbar code catches nothing.
\<close>

definition collection_add :: "'a \<Rightarrow> nat option \<Rightarrow> 'a list \<Rightarrow> 'a list option" where
  "collection_add item index xs =
     (if item \<in> set xs then None
      else case index of
             None \<Rightarrow> Some (xs @ [item])
           | Some i \<Rightarrow> if i > length xs then None else Some (take i xs @ item # drop i xs))"

definition collection_remove :: "'a \<Rightarrow> 'a list \<Rightarrow> 'a list option" where
  "collection_remove item xs = (if item \<in> set xs then Some (remove1 item xs) else None)"

text \<open>\<^verbatim>\<open>first\<close> and \<^verbatim>\<open>last\<close> are \<^verbatim>\<open>null\<close> (here \<open>None\<close>) on an empty collection.\<close>

definition collection_first :: "'a list \<Rightarrow> 'a option" where
  "collection_first xs = (case xs of [] \<Rightarrow> None | x # _ \<Rightarrow> Some x)"

definition collection_last :: "'a list \<Rightarrow> 'a option" where
  "collection_last xs = (if xs = [] then None else Some (last xs))"

section \<open>The toolbar view\<close>

text \<open>
  Views are objects: two views created by two \<^verbatim>\<open>new\<close> expressions are different even
  when they look alike. A toolbar item is a separator or a component made by the factory
  or by the caller; its number is the identity of the object (the toolbar numbers the
  views it creates itself, a view of the caller comes with its number). The members of
  \<^verbatim>\<open>_components\<close> and of \<^verbatim>\<open>_focusCycleableItems\<close> are items, the \<^verbatim>\<open>_itemsView\<close> or the
  \<^verbatim>\<open>groupedItemsDropdown\<close>.
\<close>

datatype item = ToolbarSeparatorView nat | ComponentView string nat

datatype view = Item item | ItemsView | GroupedItemsDropdown

text \<open>The value of \<^verbatim>\<open>Number.parseInt\<close>: an integer or NaN.\<close>

datatype number = NaN | Num int

datatype direction = LTR | RTL

text \<open>
  The rendered tree below the toolbar element. A separator has no state, so all
  separators render alike; a component renders as itself.
\<close>

datatype node =
    SeparatorNode
  | ComponentNode string nat
  | ItemsNode "node list"
  | DropdownNode "node list"

record rect =
  left :: real
  right :: real

record geometry =
  lastChildRect :: rect
  toolbarRect :: rect

text \<open>
  What the code reads from the browser. \<open>bodyContainsElement\<close> is
  \<^verbatim>\<open>view.element.ownerDocument.body.contains( view.element )\<close>; \<open>layout\<close> gives the
  rectangles of \<^verbatim>\<open>element.lastChild\<close> and of \<^verbatim>\<open>element\<close> for a rendered tree;
  \<open>paddingRight\<close> and \<open>paddingLeft\<close> are \<^verbatim>\<open>Number.parseInt\<close> of the computed style of the
  element, which the code caches as a property of the element itself, independent of
  its children; \<open>factoryHas\<close> is \<^verbatim>\<open>factory.has\<close>.
\<close>

record env =
  bodyContainsElement :: bool
  uiLanguageDirection :: direction
  layout :: "node list \<Rightarrow> geometry"
  paddingRight :: number
  paddingLeft :: number
  factoryHas :: "string \<Rightarrow> bool"

text \<open>
  The state of a \<^verbatim>\<open>ToolbarView\<close> together with its \<^verbatim>\<open>_kind\<close> helper. \<open>previousWidth\<close> is
  the variable closed over by the resize callback (\<open>None\<close> is \<^verbatim>\<open>undefined\<close>),
  \<open>nextViewId\<close> numbers the views created by \<^verbatim>\<open>new\<close> and by the factory, \<open>warnings\<close> is
  what was written with \<^verbatim>\<open>console.warn\<close>, and \<open>updateGroupingCalls\<close> counts the calls of
  \<^verbatim>\<open>updateGrouping\<close>, and \<open>moves\<close> lists the items that \<^verbatim>\<open>groupLastItem\<close> and
  \<^verbatim>\<open>ungroupFirstItem\<close> have moved, in the order of the moves (these two are not fields of
  the source; the code never reads them).
  The \<^verbatim>\<open>_itemsView.items\<close> collection is bound one to one to \<open>ungroupedItems\<close> and the
  items of the dropdown's toolbar to \<open>groupedItems\<close>, so they are not stored again.
  The focus tracker and the keystroke handler are left out: the toolbar only writes to
  them. The toolbar is taken to be rendered, so that \<^verbatim>\<open>view.element\<close> exists whenever
  \<^verbatim>\<open>updateGrouping\<close> looks at it.
\<close>

datatype move = Grouped item | Ungrouped item

record toolbar =
  shouldGroupWhenFull :: bool
  items :: "item list"
  ungroupedItems :: "item list"
  groupedItems :: "item list"
  components :: "view list"
  focusCycleableItems :: "view list"
  updateLock :: bool
  cachedPadding :: "number option"
  previousWidth :: "real option"
  nextViewId :: nat
  warnings :: "string list"
  updateGroupingCalls :: nat
  moves :: "move list"

text \<open>
  The constructor: \<^verbatim>\<open>_components\<close> receives the \<^verbatim>\<open>_itemsView\<close> before any listener is
  attached, every other collection is empty.
\<close>

definition ToolbarView :: "bool \<Rightarrow> toolbar" where
  "ToolbarView groupWhenFull =
     \<lparr>shouldGroupWhenFull = groupWhenFull, items = [], ungroupedItems = [],
      groupedItems = [], components = [ItemsView], focusCycleableItems = [],
      updateLock = False, cachedPadding = None, previousWidth = None,
      nextViewId = 0, warnings = [], updateGroupingCalls = 0, moves = []\<rparr>"

subsection \<open>Rendering and measuring\<close>

definition renderItem :: "item \<Rightarrow> node" where
  "renderItem x =
     (case x of
        ToolbarSeparatorView _ \<Rightarrow> SeparatorNode
      | ComponentView name i \<Rightarrow> ComponentNode name i)"

definition renderView :: "toolbar \<Rightarrow> view \<Rightarrow> node" where
  "renderView s v =
     (case v of
        Item x \<Rightarrow> renderItem x
      | ItemsView \<Rightarrow> ItemsNode (map renderItem (ungroupedItems s))
      | GroupedItemsDropdown \<Rightarrow> DropdownNode (map renderItem (groupedItems s)))"

definition domTree :: "toolbar \<Rightarrow> node list" where
  "domTree s = map (renderView s) (components s)"

text \<open>\<^verbatim>\<open>!this._cachedPadding\<close> holds for \<^verbatim>\<open>null\<close>, for NaN and for 0.\<close>

definition truthy :: "number option \<Rightarrow> bool" where
  "truthy p = (case p of None \<Rightarrow> False | Some NaN \<Rightarrow> False | Some (Num n) \<Rightarrow> n \<noteq> 0)"

text \<open>
  Arithmetic with the cached padding: a result of \<open>None\<close> is NaN, and every comparison
  with NaN is false.
\<close>

definition jsMinus :: "real \<Rightarrow> number option \<Rightarrow> real option" where
  "jsMinus x p =
     (case p of None \<Rightarrow> Some x | Some NaN \<Rightarrow> None | Some (Num n) \<Rightarrow> Some (x - real_of_int n))"

definition jsPlus :: "real \<Rightarrow> number option \<Rightarrow> real option" where
  "jsPlus x p =
     (case p of None \<Rightarrow> Some x | Some NaN \<Rightarrow> None | Some (Num n) \<Rightarrow> Some (x + real_of_int n))"

definition jsGreater :: "real \<Rightarrow> real option \<Rightarrow> bool" where
  "jsGreater x y = (case y of None \<Rightarrow> False | Some v \<Rightarrow> x > v)"

definition jsLess :: "real \<Rightarrow> real option \<Rightarrow> bool" where
  "jsLess x y = (case y of None \<Rightarrow> False | Some v \<Rightarrow> x < v)"

text \<open>
  The getter \<^verbatim>\<open>areItemsOverflowing\<close>. It has an effect: it fills \<^verbatim>\<open>_cachedPadding\<close>, so it
  returns the state too.
\<close>

definition areItemsOverflowing :: "env \<Rightarrow> toolbar \<Rightarrow> bool \<times> toolbar" where
  "areItemsOverflowing e s =
     (if ungroupedItems s = [] then (False, s)
      else
        let g = layout e (domTree s);
            s' = (if \<not> truthy (cachedPadding s)
                  then s\<lparr>cachedPadding :=
                         Some (if uiLanguageDirection e = LTR then paddingRight e
                               else paddingLeft e)\<rparr>
                  else s)
        in if uiLanguageDirection e = LTR
           then (jsGreater (right (lastChildRect g))
                   (jsMinus (right (toolbarRect g)) (cachedPadding s')), s')
           else (jsLess (left (lastChildRect g))
                   (jsPlus (left (toolbarRect g)) (cachedPadding s')), s'))"

subsection \<open>Focus-cycleable items\<close>

text \<open>\<^verbatim>\<open>collection.add( x )\<close> for each \<open>x\<close> of a list, in order.\<close>

fun addEach :: "'a list \<Rightarrow> 'a list \<Rightarrow> 'a list option" where
  "addEach [] c = Some c"
| "addEach (x # xs) c = do { c' \<leftarrow> collection_add x None c; addEach xs c' }"

definition updateFocusCycleableItems :: "toolbar \<Rightarrow> toolbar option" where
  "updateFocusCycleableItems s = do {
     f \<leftarrow> addEach (map Item (ungroupedItems s)) [];
     f' \<leftarrow> (if groupedItems s \<noteq> [] then collection_add GroupedItemsDropdown None f
            else Some f);
     Some (s\<lparr>focusCycleableItems := f'\<rparr>)
   }"

text \<open>
  The constructor of \<^verbatim>\<open>DynamicGroupingToolbar\<close> attaches
  \<^verbatim>\<open>_updateFocusCycleableItems\<close> to the \<^verbatim>\<open>add\<close> and \<^verbatim>\<open>remove\<close> events of \<open>ungroupedItems\<close>
  and of \<^verbatim>\<open>_components\<close>. The next four functions are those collection operations
  followed by their listener. \<open>groupedItems\<close> has no listener.
\<close>

definition ungroupedItems_add :: "item \<Rightarrow> nat option \<Rightarrow> toolbar \<Rightarrow> toolbar option" where
  "ungroupedItems_add x index s = do {
     u \<leftarrow> collection_add x index (ungroupedItems s);
     updateFocusCycleableItems (s\<lparr>ungroupedItems := u\<rparr>)
   }"

definition ungroupedItems_remove :: "item \<Rightarrow> toolbar \<Rightarrow> toolbar option" where
  "ungroupedItems_remove x s = do {
     u \<leftarrow> collection_remove x (ungroupedItems s);
     updateFocusCycleableItems (s\<lparr>ungroupedItems := u\<rparr>)
   }"

definition components_add :: "view \<Rightarrow> toolbar \<Rightarrow> toolbar option" where
  "components_add v s = do {
     c \<leftarrow> collection_add v None (components s);
     updateFocusCycleableItems (s\<lparr>components := c\<rparr>)
   }"

definition components_remove :: "view \<Rightarrow> toolbar \<Rightarrow> toolbar option" where
  "components_remove v s = do {
     c \<leftarrow> collection_remove v (components s);
     updateFocusCycleableItems (s\<lparr>components := c\<rparr>)
   }"

subsection \<open>Grouping and ungrouping one item\<close>

text \<open>
  \<^verbatim>\<open>groupLastItem\<close>: the separator is a new object. The argument of \<^verbatim>\<open>groupedItems.add\<close>
  is evaluated first, so the item leaves \<open>ungroupedItems\<close> (and the listener runs)
  before it enters \<open>groupedItems\<close>.
\<close>

definition groupLastItem :: "toolbar \<Rightarrow> toolbar option" where
  "groupLastItem s = do {
     s1 \<leftarrow> (if groupedItems s = [] then do {
              let separator = Item (ToolbarSeparatorView (nextViewId s));
              sa \<leftarrow> components_add separator (s\<lparr>nextViewId := Suc (nextViewId s)\<rparr>);
              components_add GroupedItemsDropdown sa
            } else Some s);
     lastItem \<leftarrow> collection_last (ungroupedItems s1);
     s2 \<leftarrow> ungroupedItems_remove lastItem s1;
     g \<leftarrow> collection_add lastItem (Some 0) (groupedItems s2);
     Some (s2\<lparr>groupedItems := g, moves := moves s2 @ [Grouped lastItem]\<rparr>)
   }"

definition ungroupFirstItem :: "toolbar \<Rightarrow> toolbar option" where
  "ungroupFirstItem s = do {
     firstItem \<leftarrow> collection_first (groupedItems s);
     g \<leftarrow> collection_remove firstItem (groupedItems s);
     s1 \<leftarrow> ungroupedItems_add firstItem None
            (s\<lparr>groupedItems := g, moves := moves s @ [Ungrouped firstItem]\<rparr>);
     if groupedItems s1 = [] then do {
       s2 \<leftarrow> components_remove GroupedItemsDropdown s1;
       lastComponent \<leftarrow> collection_last (components s2);
       components_remove lastComponent s2
     } else Some s1
   }"


subsection \<open>What the collection operations and the listener compute\<close>

lemma collection_add_end:
  "collection_add x None xs = (if x \<in> set xs then None else Some (xs @ [x]))"
  by (simp add: collection_add_def)

lemma collection_add_front:
  "collection_add x (Some 0) xs = (if x \<in> set xs then None else Some (x # xs))"
  by (simp add: collection_add_def)

lemma addEach_char:
  "addEach xs c = (if distinct xs \<and> set xs \<inter> set c = {} then Some (c @ xs) else None)"
  by (induction xs arbitrary: c) (auto simp: collection_add_end)

text \<open>
  The list the listener builds: the ungrouped items in order, then the dropdown when
  something is grouped.
\<close>

definition focusables :: "toolbar \<Rightarrow> view list" where
  "focusables s =
     map Item (ungroupedItems s) @ (if groupedItems s \<noteq> [] then [GroupedItemsDropdown] else [])"

lemma updateFocusCycleableItems_char:
  "updateFocusCycleableItems s =
     (if distinct (ungroupedItems s) then Some (s\<lparr>focusCycleableItems := focusables s\<rparr>)
      else None)"
  by (auto simp: updateFocusCycleableItems_def addEach_char focusables_def collection_add_end
      distinct_map inj_on_def)

lemma components_add_char:
  "components_add v s =
     (if v \<in> set (components s) \<or> \<not> distinct (ungroupedItems s) then None
      else Some (s\<lparr>components := components s @ [v], focusCycleableItems := focusables s\<rparr>))"
  by (simp add: components_add_def collection_add_end updateFocusCycleableItems_char
      focusables_def)

lemma components_remove_char:
  "components_remove v s =
     (if v \<notin> set (components s) \<or> \<not> distinct (ungroupedItems s) then None
      else Some (s\<lparr>components := remove1 v (components s),
                   focusCycleableItems := focusables s\<rparr>))"
  by (simp add: components_remove_def collection_remove_def updateFocusCycleableItems_char
      focusables_def)

lemma ungroupedItems_add_char:
  "ungroupedItems_add x index s =
     (case collection_add x index (ungroupedItems s) of
        None \<Rightarrow> None
      | Some u \<Rightarrow> if distinct u
                  then Some (s\<lparr>ungroupedItems := u,
                      focusCycleableItems := map Item u
                        @ (if groupedItems s \<noteq> [] then [GroupedItemsDropdown] else [])\<rparr>)
                  else None)"
  by (simp add: ungroupedItems_add_def updateFocusCycleableItems_char focusables_def
      split: option.splits)

lemma ungroupedItems_remove_char:
  "ungroupedItems_remove x s =
     (if x \<in> set (ungroupedItems s) \<and> distinct (remove1 x (ungroupedItems s))
      then Some (s\<lparr>ungroupedItems := remove1 x (ungroupedItems s),
                   focusCycleableItems := map Item (remove1 x (ungroupedItems s))
                     @ (if groupedItems s \<noteq> [] then [GroupedItemsDropdown] else [])\<rparr>)
      else None)"
  by (simp add: ungroupedItems_remove_def collection_remove_def updateFocusCycleableItems_char
      focusables_def)

lemma groupLastItem_first:
  assumes "groupedItems s = []" "ungroupedItems s = u @ [x]" "distinct (u @ [x])"
    "components s = [ItemsView]"
  shows "groupLastItem s = Some (s\<lparr>
        nextViewId := Suc (nextViewId s),
        components := [ItemsView, Item (ToolbarSeparatorView (nextViewId s)), GroupedItemsDropdown],
        focusCycleableItems := map Item u,
        ungroupedItems := u,
        groupedItems := [x],
        moves := moves s @ [Grouped x]\<rparr>)"
  using assms
  by (simp add: groupLastItem_def components_add_char ungroupedItems_remove_char
      collection_last_def collection_add_front focusables_def remove1_append)

lemma groupLastItem_more:
  assumes "groupedItems s \<noteq> []" "ungroupedItems s = u @ [x]" "distinct (u @ [x])"
    "x \<notin> set (groupedItems s)"
  shows "groupLastItem s = Some (s\<lparr>
        focusCycleableItems := map Item u @ [GroupedItemsDropdown],
        ungroupedItems := u,
        groupedItems := x # groupedItems s,
        moves := moves s @ [Grouped x]\<rparr>)"
  using assms
  by (simp add: groupLastItem_def ungroupedItems_remove_char
      collection_last_def collection_add_front remove1_append)

lemma ungroupFirstItem_last:
  assumes "groupedItems s = [x]" "distinct (ungroupedItems s @ [x])"
    "components s = [ItemsView, Item (ToolbarSeparatorView k), GroupedItemsDropdown]"
  shows "ungroupFirstItem s = Some (s\<lparr>
        components := [ItemsView],
        focusCycleableItems := map Item (ungroupedItems s @ [x]),
        ungroupedItems := ungroupedItems s @ [x],
        groupedItems := [],
        moves := moves s @ [Ungrouped x]\<rparr>)"
  using assms
  by (simp add: ungroupFirstItem_def ungroupedItems_add_char components_remove_char
      collection_first_def collection_last_def collection_remove_def collection_add_end
      focusables_def)

lemma ungroupFirstItem_more:
  assumes "groupedItems s = x # g" "g \<noteq> []" "distinct (ungroupedItems s @ [x])"
  shows "ungroupFirstItem s = Some (s\<lparr>
        focusCycleableItems := map Item (ungroupedItems s @ [x]) @ [GroupedItemsDropdown],
        ungroupedItems := ungroupedItems s @ [x],
        groupedItems := g,
        moves := moves s @ [Ungrouped x]\<rparr>)"
  using assms
  by (simp add: ungroupFirstItem_def ungroupedItems_add_char
      collection_first_def collection_remove_def collection_add_end)

subsection \<open>The loops of updateGrouping\<close>

text \<open>
  The padding a measurement uses: the cached one when it is truthy, the computed one
  otherwise. \<open>overflows\<close> is the value of the getter.
\<close>

definition effectivePadding :: "env \<Rightarrow> toolbar \<Rightarrow> number option" where
  "effectivePadding e s =
     (if truthy (cachedPadding s) then cachedPadding s
      else Some (if uiLanguageDirection e = LTR then paddingRight e else paddingLeft e))"

definition overflows :: "env \<Rightarrow> toolbar \<Rightarrow> bool" where
  "overflows e s = fst (areItemsOverflowing e s)"

lemma areItemsOverflowing_snd:
  "snd (areItemsOverflowing e s) =
     (if ungroupedItems s = [] then s else s\<lparr>cachedPadding := effectivePadding e s\<rparr>)"
  by (simp add: areItemsOverflowing_def effectivePadding_def Let_def)

lemma groupLastItem_ungroupedItems:
  assumes "groupLastItem s = Some s'"
  shows "ungroupedItems s \<noteq> []"
    and "ungroupedItems s' = remove1 (last (ungroupedItems s)) (ungroupedItems s)"
  using assms
  by (auto simp: groupLastItem_def components_add_char ungroupedItems_remove_char
      collection_last_def collection_add_front Option.bind_eq_Some_conv Let_def
      split: if_splits)

lemma groupLastItem_shorter:
  assumes "groupLastItem s = Some s'"
  shows "length (ungroupedItems s') < length (ungroupedItems s)"
  using groupLastItem_ungroupedItems [OF assms]
  by (simp add: length_remove1)

lemma ungroupFirstItem_groupedItems:
  assumes "ungroupFirstItem s = Some s'"
  shows "groupedItems s \<noteq> []" and "groupedItems s' = tl (groupedItems s)"
  using assms
  by (auto simp: ungroupFirstItem_def components_remove_char ungroupedItems_add_char
      collection_first_def collection_remove_def Option.bind_eq_Some_conv
      split: if_splits list.splits option.splits)

text \<open>
  \<^verbatim>\<open>while ( this.areItemsOverflowing ) { this.groupLastItem(); wereItemsGrouped = true; }\<close>
  The loop ends because the getter is false on an empty \<open>ungroupedItems\<close> and each
  round removes one item from it.
\<close>

function groupWhileOverflowing :: "env \<Rightarrow> bool \<Rightarrow> toolbar \<Rightarrow> (bool \<times> toolbar) option" where
  "groupWhileOverflowing e wereItemsGrouped s =
     (let r = areItemsOverflowing e s in
      if fst r then
        (case groupLastItem (snd r) of
           None \<Rightarrow> None
         | Some s' \<Rightarrow> groupWhileOverflowing e True s')
      else Some (wereItemsGrouped, snd r))"
  by pat_completeness auto
termination
proof (relation "measure (\<lambda>(e, w, s). length (ungroupedItems s))")
  show "wf (measure (\<lambda>(e, w, s). length (ungroupedItems s)))"
    by simp
next
  fix e :: env and wereItemsGrouped :: bool and s r s'
  assume r: "r = areItemsOverflowing e s" and "fst r" and g: "groupLastItem (snd r) = Some s'"
  have "ungroupedItems (snd r) = ungroupedItems s"
    unfolding r areItemsOverflowing_snd by simp
  with groupLastItem_shorter [OF g]
  show "((e, True, s'), (e, wereItemsGrouped, s)) \<in> measure (\<lambda>(e, w, s). length (ungroupedItems s))"
    by simp
qed

text \<open>
  \<^verbatim>\<open>while ( this.groupedItems.length && !this.areItemsOverflowing ) { this.ungroupFirstItem(); }\<close>
  The getter is read only when something is grouped; each round removes one item from
  \<open>groupedItems\<close>.
\<close>

function ungroupWhileFitting :: "env \<Rightarrow> toolbar \<Rightarrow> toolbar option" where
  "ungroupWhileFitting e s =
     (if groupedItems s \<noteq> [] then
        (let r = areItemsOverflowing e s in
         if \<not> fst r then
           (case ungroupFirstItem (snd r) of
              None \<Rightarrow> None
            | Some s' \<Rightarrow> ungroupWhileFitting e s')
         else Some (snd r))
      else Some s)"
  by pat_completeness auto
termination
proof (relation "measure (\<lambda>(e, s). length (groupedItems s))")
  show "wf (measure (\<lambda>(e, s). length (groupedItems s)))"
    by simp
next
  fix e :: env and s r s'
  assume ne: "groupedItems s \<noteq> []" and r: "r = areItemsOverflowing e s"
    and u: "ungroupFirstItem (snd r) = Some s'"
  have "groupedItems (snd r) = groupedItems s"
    unfolding r areItemsOverflowing_snd by simp
  with ungroupFirstItem_groupedItems [OF u] ne
  show "((e, s'), (e, s)) \<in> measure (\<lambda>(e, s). length (groupedItems s))"
    by simp
qed


declare groupWhileOverflowing.simps [simp del]

declare ungroupWhileFitting.simps [simp del]

subsection \<open>updateGrouping and its callers\<close>

text \<open>
  \<^verbatim>\<open>updateGrouping\<close>. \<^verbatim>\<open>wereItemsGrouped\<close> starts as \<^verbatim>\<open>undefined\<close>, which the test
  \<^verbatim>\<open>!wereItemsGrouped\<close> treats as false. \<^verbatim>\<open>this.groupedItems\<close> is always an object, so
  the second conjunct of the test is about its length alone. An exception leaves the
  method before \<^verbatim>\<open>_updateLock\<close> is reset; the result is then \<open>None\<close>.
\<close>

definition updateGrouping :: "env \<Rightarrow> toolbar \<Rightarrow> toolbar option" where
  "updateGrouping e s0 =
     (let s = s0\<lparr>updateGroupingCalls := Suc (updateGroupingCalls s0)\<rparr> in
      if updateLock s then Some s
      else if \<not> bodyContainsElement e then Some s
      else do {
        (wereItemsGrouped, s1) \<leftarrow> groupWhileOverflowing e False (s\<lparr>updateLock := True\<rparr>);
        s2 \<leftarrow> (if \<not> wereItemsGrouped \<and> groupedItems s1 \<noteq> [] then do {
                 s3 \<leftarrow> ungroupWhileFitting e s1;
                 let r = areItemsOverflowing e s3;
                 if fst r then groupLastItem (snd r) else Some (snd r)
               } else Some s1);
        Some (s2\<lparr>updateLock := False\<rparr>)
      })"

text \<open>
  \<^verbatim>\<open>view.items.add( item, index )\<close> with the listener that the constructor of
  \<^verbatim>\<open>DynamicGroupingToolbar\<close> attaches. The event carries the index at which the item was
  inserted. A static toolbar has no such listener; the collections it binds to \<open>items\<close>
  are not modelled, so for it only \<open>items\<close> changes.
\<close>

definition items_add :: "env \<Rightarrow> item \<Rightarrow> nat option \<Rightarrow> toolbar \<Rightarrow> toolbar option" where
  "items_add e x index s0 = do {
     its \<leftarrow> collection_add x index (items s0);
     let i = (case index of None \<Rightarrow> length (items s0) | Some i \<Rightarrow> i);
     let s = s0\<lparr>items := its\<rparr>;
     if shouldGroupWhenFull s then
       (if i > length (ungroupedItems s) then do {
          g \<leftarrow> collection_add x (Some (i - length (ungroupedItems s))) (groupedItems s);
          Some (s\<lparr>groupedItems := g\<rparr>)
        } else do {
          s1 \<leftarrow> ungroupedItems_add x (Some i) s;
          updateGrouping e s1
        })
     else Some s
   }"

text \<open>\<^verbatim>\<open>view.items.remove( item )\<close> with the listener of a grouping toolbar.\<close>

definition items_remove :: "env \<Rightarrow> item \<Rightarrow> toolbar \<Rightarrow> toolbar option" where
  "items_remove e x s0 = do {
     its \<leftarrow> collection_remove x (items s0);
     let s = s0\<lparr>items := its\<rparr>;
     if shouldGroupWhenFull s then do {
       s1 \<leftarrow> (if x \<in> set (groupedItems s) then do {
                g \<leftarrow> collection_remove x (groupedItems s);
                Some (s\<lparr>groupedItems := g\<rparr>)
              } else if x \<in> set (ungroupedItems s) then ungroupedItems_remove x s
              else Some s);
       updateGrouping e s1
     } else Some s
   }"

text \<open>
  \<^verbatim>\<open>enableGroupingOnResize\<close> declares \<^verbatim>\<open>previousWidth\<close>, registers the callback and
  calls \<^verbatim>\<open>updateGrouping\<close> once. \<open>resizeCallback\<close> is the callback for one entry with
  the given \<^verbatim>\<open>contentRect.width\<close>; \<^verbatim>\<open>!previousWidth\<close> holds for \<^verbatim>\<open>undefined\<close> and for 0.
\<close>

definition enableGroupingOnResize :: "env \<Rightarrow> toolbar \<Rightarrow> toolbar option" where
  "enableGroupingOnResize e s = updateGrouping e (s\<lparr>previousWidth := None\<rparr>)"

definition falsy :: "real option \<Rightarrow> bool" where
  "falsy w = (case w of None \<Rightarrow> True | Some v \<Rightarrow> v = 0)"

definition resizeCallback :: "env \<Rightarrow> real \<Rightarrow> toolbar \<Rightarrow> toolbar option" where
  "resizeCallback e width s =
     (if falsy (previousWidth s) \<or> previousWidth s \<noteq> Some width then do {
        s' \<leftarrow> updateGrouping e s;
        Some (s'\<lparr>previousWidth := Some width\<rparr>)
      } else Some s)"

text \<open>The callback for a sequence of entries, one after the other.\<close>

fun resizeCallbacks :: "env \<Rightarrow> real list \<Rightarrow> toolbar \<Rightarrow> toolbar option" where
  "resizeCallbacks e [] s = Some s"
| "resizeCallbacks e (width # widths) s = do {
     s' \<leftarrow> resizeCallback e width s;
     resizeCallbacks e widths s'
   }"

subsection \<open>fillFromConfig\<close>

text \<open>
  The callback of \<^verbatim>\<open>map\<close>, applied to the names in turn. Each view is a new object,
  inserted at index 0. A name the factory does not know is reported with
  \<^verbatim>\<open>console.warn\<close> and skipped.
\<close>

fun fillFromConfig_map :: "env \<Rightarrow> string list \<Rightarrow> toolbar \<Rightarrow> toolbar option" where
  "fillFromConfig_map e [] s = Some s"
| "fillFromConfig_map e (name # names) s = do {
     s' \<leftarrow> (if name = ''|''
            then items_add e (ToolbarSeparatorView (nextViewId s)) (Some 0)
                   (s\<lparr>nextViewId := Suc (nextViewId s)\<rparr>)
            else if factoryHas e name
            then items_add e (ComponentView name (nextViewId s)) (Some 0)
                   (s\<lparr>nextViewId := Suc (nextViewId s)\<rparr>)
            else Some (s\<lparr>warnings := warnings s @ [name]\<rparr>));
     fillFromConfig_map e names s'
   }"

text \<open>
  \<^verbatim>\<open>config.reverse()\<close> reverses the caller's array in place before anything else
  happens, so the first component of the result, the array after the call, does not
  depend on whether the rest of the call throws.
\<close>

definition fillFromConfig :: "env \<Rightarrow> string list \<Rightarrow> toolbar \<Rightarrow> string list \<times> toolbar option" where
  "fillFromConfig e config s = (rev config, fillFromConfig_map e (rev config) s)"


section \<open>Invariants of a grouping toolbar\<close>

text \<open>
  What every operation keeps true of the three collections: no item occurs twice,
  \<^verbatim>\<open>_components\<close> is the items view alone or the items view, a separator and the
  dropdown, and the dropdown is there whenever something is grouped.
\<close>

definition grouping_inv :: "toolbar \<Rightarrow> bool" where
  "grouping_inv s \<longleftrightarrow>
     distinct (ungroupedItems s @ groupedItems s)
     \<and> (components s = [ItemsView]
        \<or> (\<exists>k. components s = [ItemsView, Item (ToolbarSeparatorView k), GroupedItemsDropdown]))
     \<and> (groupedItems s \<noteq> [] \<longrightarrow> GroupedItemsDropdown \<in> set (components s))"

text \<open>The fields that neither the getter nor the two moves touch.\<close>

definition untouched :: "toolbar \<Rightarrow> toolbar \<Rightarrow> bool" where
  "untouched s s' \<longleftrightarrow>
     shouldGroupWhenFull s' = shouldGroupWhenFull s \<and> items s' = items s
     \<and> updateLock s' = updateLock s \<and> previousWidth s' = previousWidth s
     \<and> warnings s' = warnings s \<and> updateGroupingCalls s' = updateGroupingCalls s"

lemma untouched_refl: "untouched s s"
  by (simp add: untouched_def)

lemma untouched_trans: "untouched s t \<Longrightarrow> untouched t u \<Longrightarrow> untouched s u"
  by (simp add: untouched_def)

lemma groupLastItem_stuck:
  assumes "groupedItems s = []" "GroupedItemsDropdown \<in> set (components s)"
  shows "groupLastItem s = None"
  using assms
  by (simp add: groupLastItem_def components_add_char Let_def)

lemma groupLastItem_cases:
  assumes inv: "grouping_inv s" and g: "groupLastItem s = Some s'"
  obtains (first) u x where "ungroupedItems s = u @ [x]" "groupedItems s = []"
      "components s = [ItemsView]"
      "s' = s\<lparr>nextViewId := Suc (nextViewId s),
        components := [ItemsView, Item (ToolbarSeparatorView (nextViewId s)), GroupedItemsDropdown],
        focusCycleableItems := map Item u,
        ungroupedItems := u,
        groupedItems := [x],
        moves := moves s @ [Grouped x]\<rparr>"
  | (more) u x where "ungroupedItems s = u @ [x]" "groupedItems s \<noteq> []"
      "s' = s\<lparr>focusCycleableItems := map Item u @ [GroupedItemsDropdown],
        ungroupedItems := u,
        groupedItems := x # groupedItems s,
        moves := moves s @ [Grouped x]\<rparr>"
proof -
  from groupLastItem_ungroupedItems(1) [OF g] obtain u x where ux: "ungroupedItems s = u @ [x]"
    by (metis rev_exhaust)
  from inv ux have d: "distinct (u @ [x])" and xg: "x \<notin> set (groupedItems s)"
    by (auto simp: grouping_inv_def)
  show thesis
  proof (cases "groupedItems s = []")
    case True
    with g groupLastItem_stuck have "GroupedItemsDropdown \<notin> set (components s)"
      by fastforce
    with inv have c: "components s = [ItemsView]"
      by (auto simp: grouping_inv_def)
    from g groupLastItem_first [OF True ux d c] first [OF ux True c] show thesis
      by simp
  next
    case False
    from g groupLastItem_more [OF False ux d xg] more [OF ux False] show thesis
      by simp
  qed
qed

lemma ungroupFirstItem_cases:
  assumes inv: "grouping_inv s" and g: "ungroupFirstItem s = Some s'"
  obtains (last) x k where "groupedItems s = [x]"
      "components s = [ItemsView, Item (ToolbarSeparatorView k), GroupedItemsDropdown]"
      "s' = s\<lparr>components := [ItemsView],
        focusCycleableItems := map Item (ungroupedItems s @ [x]),
        ungroupedItems := ungroupedItems s @ [x],
        groupedItems := [],
        moves := moves s @ [Ungrouped x]\<rparr>"
  | (more) x g where "groupedItems s = x # g" "g \<noteq> []"
      "s' = s\<lparr>focusCycleableItems := map Item (ungroupedItems s @ [x]) @ [GroupedItemsDropdown],
        ungroupedItems := ungroupedItems s @ [x],
        groupedItems := g,
        moves := moves s @ [Ungrouped x]\<rparr>"
proof -
  from ungroupFirstItem_groupedItems(1) [OF g] obtain x r where xr: "groupedItems s = x # r"
    by (cases "groupedItems s") auto
  from inv xr have d: "distinct (ungroupedItems s @ [x])"
    by (auto simp: grouping_inv_def)
  show thesis
  proof (cases "r = []")
    case True
    from inv xr obtain k where
      c: "components s = [ItemsView, Item (ToolbarSeparatorView k), GroupedItemsDropdown]"
      by (auto simp: grouping_inv_def)
    from xr True have x1: "groupedItems s = [x]"
      by simp
    from g ungroupFirstItem_last [OF x1 d c] last [OF x1 c] show thesis
      by simp
  next
    case False
    from g ungroupFirstItem_more [OF xr False d] more [OF xr False] show thesis
      by simp
  qed
qed

lemma groupLastItem_inv:
  assumes "grouping_inv s" "groupLastItem s = Some s'"
  shows "grouping_inv s'"
    and "ungroupedItems s' @ groupedItems s' = ungroupedItems s @ groupedItems s"
    and "untouched s s'" and "cachedPadding s' = cachedPadding s"
  using assms(1)
  by (cases rule: groupLastItem_cases [OF assms]; auto simp: grouping_inv_def untouched_def)+

lemma ungroupFirstItem_inv:
  assumes "grouping_inv s" "ungroupFirstItem s = Some s'"
  shows "grouping_inv s'"
    and "ungroupedItems s' @ groupedItems s' = ungroupedItems s @ groupedItems s"
    and "untouched s s'" and "cachedPadding s' = cachedPadding s"
  using assms(1)
  by (cases rule: ungroupFirstItem_cases [OF assms]; auto simp: grouping_inv_def untouched_def)+

lemma areItemsOverflowing_inv:
  "grouping_inv (snd (areItemsOverflowing e s)) = grouping_inv s"
  "ungroupedItems (snd (areItemsOverflowing e s)) = ungroupedItems s"
  "groupedItems (snd (areItemsOverflowing e s)) = groupedItems s"
  "components (snd (areItemsOverflowing e s)) = components s"
  "untouched s (snd (areItemsOverflowing e s))"
  by (simp_all add: areItemsOverflowing_snd grouping_inv_def untouched_def)

subsection \<open>Measuring twice\<close>

text \<open>
  The getter depends on the ungrouped items, the rendered tree and the padding in use;
  reading it again in the state it returned gives the same answer.
\<close>

lemma overflows_cong:
  assumes "ungroupedItems s = ungroupedItems t" "domTree s = domTree t"
    "effectivePadding e s = effectivePadding e t"
  shows "overflows e s = overflows e t"
proof -
  have c: "\<And>s. cachedPadding (if \<not> truthy (cachedPadding s)
        then s\<lparr>cachedPadding := Some (if uiLanguageDirection e = LTR then paddingRight e
                               else paddingLeft e)\<rparr> else s) = effectivePadding e s"
    by (simp add: effectivePadding_def)
  show ?thesis
    using assms unfolding overflows_def areItemsOverflowing_def Let_def
    by (simp add: c del: if_not_P)
qed

lemma effectivePadding_idem:
  "effectivePadding e (s\<lparr>cachedPadding := effectivePadding e s\<rparr>) = effectivePadding e s"
  by (simp add: effectivePadding_def)

lemma effectivePadding_cong:
  "cachedPadding s = cachedPadding t \<Longrightarrow> effectivePadding e s = effectivePadding e t"
  by (simp add: effectivePadding_def)

lemma effectivePadding_snd:
  "effectivePadding e (snd (areItemsOverflowing e s)) = effectivePadding e s"
  by (simp add: areItemsOverflowing_snd effectivePadding_idem)

lemma domTree_snd: "domTree (snd (areItemsOverflowing e s)) = domTree s"
  by (simp add: areItemsOverflowing_snd domTree_def renderView_def cong: view.case_cong)

lemma overflows_snd: "overflows e (snd (areItemsOverflowing e s)) = overflows e s"
  by (rule overflows_cong) (simp_all add: areItemsOverflowing_inv domTree_snd effectivePadding_snd)

lemma areItemsOverflowing_snd_snd:
  "snd (areItemsOverflowing e (snd (areItemsOverflowing e s))) = snd (areItemsOverflowing e s)"
  by (simp add: areItemsOverflowing_snd effectivePadding_idem)

lemma areItemsOverflowing_again:
  "areItemsOverflowing e (snd (areItemsOverflowing e s)) = (overflows e s, snd (areItemsOverflowing e s))"
  using overflows_snd [of e s] areItemsOverflowing_snd_snd [of e s]
  by (simp add: overflows_def prod_eq_iff)

lemma overflows_nonempty: "overflows e s \<Longrightarrow> ungroupedItems s \<noteq> []"
  by (auto simp: overflows_def areItemsOverflowing_def)

text \<open>What the grouping loop returns.\<close>

lemma groupWhileOverflowing_result:
  assumes "grouping_inv s" "groupWhileOverflowing e w s = Some (w', s')"
  shows "grouping_inv s' \<and> untouched s s' \<and> \<not> overflows e s'
    \<and> areItemsOverflowing e s' = (False, s')
    \<and> effectivePadding e s' = effectivePadding e s
    \<and> w' = (w \<or> overflows e s)
    \<and> (\<exists>k \<le> length (ungroupedItems s).
          (overflows e s \<longleftrightarrow> k < length (ungroupedItems s))
          \<and> ungroupedItems s' = take k (ungroupedItems s)
          \<and> groupedItems s' = drop k (ungroupedItems s) @ groupedItems s)"
  using assms
proof (induction e w s arbitrary: w' s' rule: groupWhileOverflowing.induct)
  case (1 e w s)
  let ?r = "areItemsOverflowing e s"
  show ?case
  proof (cases "fst ?r")
    case False
    with "1.prems"(2) have s': "s' = snd ?r" and w': "w' = w"
      by (simp_all add: groupWhileOverflowing.simps [of e w s])
    from False have no: "\<not> overflows e s"
      by (simp add: overflows_def)
    have "\<exists>k \<le> length (ungroupedItems s).
          (overflows e s \<longleftrightarrow> k < length (ungroupedItems s))
          \<and> ungroupedItems s' = take k (ungroupedItems s)
          \<and> groupedItems s' = drop k (ungroupedItems s) @ groupedItems s"
      using no by (intro exI [of _ "length (ungroupedItems s)"]) (simp add: s' areItemsOverflowing_inv)
    then show ?thesis
      using "1.prems"(1) no
      by (simp add: s' w' areItemsOverflowing_inv overflows_snd areItemsOverflowing_again
          effectivePadding_snd)
  next
    case True
    then have ov: "overflows e s"
      by (simp add: overflows_def)
    from True "1.prems"(2) obtain t where t: "groupLastItem (snd ?r) = Some t"
      and rec: "groupWhileOverflowing e True t = Some (w', s')"
      by (auto simp: groupWhileOverflowing.simps [of e w s] split: option.splits)
    have invr: "grouping_inv (snd ?r)"
      using "1.prems"(1) by (simp add: areItemsOverflowing_inv)
    note gl = groupLastItem_inv [OF invr t]
    from "1.IH" [OF refl True t gl(1) rec]
    obtain k where ih: "grouping_inv s'" "untouched t s'" "\<not> overflows e s'"
      "areItemsOverflowing e s' = (False, s')"
      "effectivePadding e s' = effectivePadding e t" "w' = True"
      and k: "k \<le> length (ungroupedItems t)" "ungroupedItems s' = take k (ungroupedItems t)"
        "groupedItems s' = drop k (ungroupedItems t) @ groupedItems t"
      by auto
    from invr t obtain u x where ux: "ungroupedItems s = u @ [x]"
      and tu: "ungroupedItems t = u" and tg: "groupedItems t = x # groupedItems s"
      by (cases rule: groupLastItem_cases) (auto simp: areItemsOverflowing_inv)
    have "effectivePadding e t = effectivePadding e s"
      using effectivePadding_cong [OF gl(4), of e] effectivePadding_snd [of e s] by simp
    moreover have "untouched s s'"
      using untouched_trans [OF untouched_trans [OF areItemsOverflowing_inv(5) gl(3)] ih(2)] .
    moreover have "\<exists>k \<le> length (ungroupedItems s).
          (overflows e s \<longleftrightarrow> k < length (ungroupedItems s))
          \<and> ungroupedItems s' = take k (ungroupedItems s)
          \<and> groupedItems s' = drop k (ungroupedItems s) @ groupedItems s"
      using k ov by (intro exI [of _ k]) (simp add: ux tu tg)
    ultimately show ?thesis
      using ih ov by simp
  qed
qed


subsection \<open>One move and its opposite\<close>

text \<open>Ungrouping the first item and grouping the last one again.\<close>

lemma ungroup_then_group:
  assumes inv: "grouping_inv s" and u: "ungroupFirstItem s = Some s1"
  shows "\<exists>s2. groupLastItem (s1\<lparr>cachedPadding := c\<rparr>) = Some s2
    \<and> ungroupedItems s2 = ungroupedItems s \<and> groupedItems s2 = groupedItems s
    \<and> domTree s2 = domTree s \<and> cachedPadding s2 = c
    \<and> (components s2 = components s
        \<or> (length (groupedItems s) = 1 \<and> (\<exists>k. components s = [ItemsView, Item (ToolbarSeparatorView k), GroupedItemsDropdown])
           \<and> components s2 = [ItemsView, Item (ToolbarSeparatorView (nextViewId s)), GroupedItemsDropdown]))"
  using inv u
proof (cases rule: ungroupFirstItem_cases)
  case (last x k)
  let ?t = "s1\<lparr>cachedPadding := c\<rparr>"
  from inv last(1) have d: "distinct (ungroupedItems s @ [x])"
    by (auto simp: grouping_inv_def)
  have "groupLastItem ?t = Some (?t\<lparr>
        nextViewId := Suc (nextViewId ?t),
        components := [ItemsView, Item (ToolbarSeparatorView (nextViewId ?t)), GroupedItemsDropdown],
        focusCycleableItems := map Item (ungroupedItems s),
        ungroupedItems := ungroupedItems s,
        groupedItems := [x],
        moves := moves ?t @ [Grouped x]\<rparr>)"
    by (rule groupLastItem_first) (use d in \<open>simp_all add: last(3)\<close>)
  then show ?thesis
    using last by (simp add: domTree_def renderView_def renderItem_def)
next
  case (more x g)
  let ?t = "s1\<lparr>cachedPadding := c\<rparr>"
  from inv more(1) have d: "distinct (ungroupedItems s @ [x])" and xg: "x \<notin> set g"
    by (auto simp: grouping_inv_def)
  have "groupLastItem ?t = Some (?t\<lparr>
        focusCycleableItems := map Item (ungroupedItems s) @ [GroupedItemsDropdown],
        ungroupedItems := ungroupedItems s,
        groupedItems := x # groupedItems ?t,
        moves := moves ?t @ [Grouped x]\<rparr>)"
    by (rule groupLastItem_more) (use d xg more(2) in \<open>simp_all add: more(3)\<close>)
  then show ?thesis
    using more by (simp add: domTree_def renderView_def cong: view.case_cong)
qed

text \<open>Grouping the last item and ungrouping the first one again.\<close>

lemma group_then_ungroup:
  assumes inv: "grouping_inv s" and g: "groupLastItem s = Some s1"
  shows "\<exists>s2. ungroupFirstItem (s1\<lparr>updateLock := b\<rparr>) = Some s2
    \<and> ungroupedItems s2 = ungroupedItems s \<and> groupedItems s2 = groupedItems s
    \<and> domTree s2 = domTree s \<and> cachedPadding s2 = cachedPadding s"
  using inv g
proof (cases rule: groupLastItem_cases)
  case (first u x)
  let ?t = "s1\<lparr>updateLock := b\<rparr>"
  from inv first(1) have d: "distinct (u @ [x])"
    by (auto simp: grouping_inv_def)
  have "ungroupFirstItem ?t = Some (?t\<lparr>
        components := [ItemsView],
        focusCycleableItems := map Item (ungroupedItems ?t @ [x]),
        ungroupedItems := ungroupedItems ?t @ [x],
        groupedItems := [],
        moves := moves ?t @ [Ungrouped x]\<rparr>)"
    by (rule ungroupFirstItem_last [where k = "nextViewId s"]) (use d in \<open>simp_all add: first(4)\<close>)
  then show ?thesis
    using first by (simp add: domTree_def renderView_def renderItem_def)
next
  case (more u x)
  let ?t = "s1\<lparr>updateLock := b\<rparr>"
  from inv more(1) have d: "distinct (u @ [x])"
    by (auto simp: grouping_inv_def)
  have "ungroupFirstItem ?t = Some (?t\<lparr>
        focusCycleableItems := map Item (ungroupedItems ?t @ [x]) @ [GroupedItemsDropdown],
        ungroupedItems := ungroupedItems ?t @ [x],
        groupedItems := groupedItems s,
        moves := moves ?t @ [Ungrouped x]\<rparr>)"
    by (rule ungroupFirstItem_more) (use d more(2) in \<open>simp_all add: more(3)\<close>)
  then show ?thesis
    using more by (simp add: domTree_def renderView_def cong: view.case_cong)
qed

subsection \<open>The ungrouping phase\<close>

text \<open>
  A state that the ungrouping loop has just produced: the result of ungrouping one item
  from a measured state in which nothing overflowed.
\<close>

definition justUngrouped :: "env \<Rightarrow> toolbar \<Rightarrow> bool" where
  "justUngrouped e s \<longleftrightarrow>
     (\<exists>p. grouping_inv p \<and> \<not> overflows e p
        \<and> ungroupFirstItem (snd (areItemsOverflowing e p)) = Some s)"

lemma undo_last_ungroup:
  assumes inv: "grouping_inv s" and ov: "overflows e s" and ju: "justUngrouped e s"
    and g: "groupLastItem (snd (areItemsOverflowing e s)) = Some s4"
  shows "grouping_inv s4" "untouched s s4" "effectivePadding e s4 = effectivePadding e s"
    "\<not> overflows e s4" "ungroupedItems s4 = butlast (ungroupedItems s)"
    "groupedItems s4 = last (ungroupedItems s) # groupedItems s"
    "\<exists>t. ungroupFirstItem (s4\<lparr>updateLock := b\<rparr>) = Some t \<and> overflows e t"
proof -
  let ?r = "snd (areItemsOverflowing e s)"
  have invr: "grouping_inv ?r"
    using inv by (simp add: areItemsOverflowing_inv)
  note gl = groupLastItem_inv [OF invr g]
  show "grouping_inv s4"
    by (rule gl(1))
  show "untouched s s4"
    by (rule untouched_trans [OF areItemsOverflowing_inv(5) gl(3)])
  show ep: "effectivePadding e s4 = effectivePadding e s"
    using effectivePadding_cong [OF gl(4), of e] effectivePadding_snd [of e s] by simp
  from invr g show "ungroupedItems s4 = butlast (ungroupedItems s)"
    "groupedItems s4 = last (ungroupedItems s) # groupedItems s"
    by (cases rule: groupLastItem_cases; simp add: areItemsOverflowing_inv)+
  from ju obtain p where p: "grouping_inv p" "\<not> overflows e p"
    and up: "ungroupFirstItem (snd (areItemsOverflowing e p)) = Some s"
    by (auto simp: justUngrouped_def)
  let ?p = "snd (areItemsOverflowing e p)"
  have invp: "grouping_inv ?p"
    using p(1) by (simp add: areItemsOverflowing_inv)
  from ov have ne: "ungroupedItems s \<noteq> []"
    by (rule overflows_nonempty)
  then have r: "?r = s\<lparr>cachedPadding := effectivePadding e s\<rparr>"
    by (simp add: areItemsOverflowing_snd)
  from ungroup_then_group [OF invp up, of "effectivePadding e s"] g r
  have restored: "ungroupedItems s4 = ungroupedItems ?p" "domTree s4 = domTree ?p"
    by auto
  have "cachedPadding s = cachedPadding ?p"
    using ungroupFirstItem_inv(4) [OF invp up] .
  then have "effectivePadding e s = effectivePadding e p"
    using effectivePadding_cong [of s ?p e] effectivePadding_snd [of e p] by simp
  with ep have "effectivePadding e s4 = effectivePadding e ?p"
    by (simp add: effectivePadding_snd)
  with restored have "overflows e s4 = overflows e ?p"
    by (intro overflows_cong)
  with p(2) show "\<not> overflows e s4"
    by (simp add: overflows_snd)
  from group_then_ungroup [OF invr g, of b] obtain t where
    t: "ungroupFirstItem (s4\<lparr>updateLock := b\<rparr>) = Some t"
    "ungroupedItems t = ungroupedItems ?r" "domTree t = domTree ?r" "cachedPadding t = cachedPadding ?r"
    by auto
  have "overflows e t = overflows e ?r"
    using t(2,3) effectivePadding_cong [OF t(4), of e] by (intro overflows_cong)
  with ov have "overflows e t"
    by (simp add: overflows_snd)
  with t(1) show "\<exists>t. ungroupFirstItem (s4\<lparr>updateLock := b\<rparr>) = Some t \<and> overflows e t"
    by blast
qed

text \<open>
  The ungrouping loop followed by the last test of \<^verbatim>\<open>updateGrouping\<close>: the items end up
  split at some position \<open>m\<close> of the whole sequence, nothing overflows, and one more
  ungrouped item would.
\<close>

lemma ungroup_phase:
  assumes "grouping_inv s" "overflows e s \<longrightarrow> justUngrouped e s"
    "ungroupWhileFitting e s = Some s3"
    "(let r = areItemsOverflowing e s3 in if fst r then groupLastItem (snd r) else Some (snd r))
       = Some s4"
  shows "grouping_inv s4 \<and> untouched s s4 \<and> effectivePadding e s4 = effectivePadding e s
    \<and> \<not> overflows e s4
    \<and> (\<exists>m \<le> length (ungroupedItems s @ groupedItems s).
         (if overflows e s then Suc m = length (ungroupedItems s)
          else length (ungroupedItems s) \<le> m)
         \<and> ungroupedItems s4 = take m (ungroupedItems s @ groupedItems s)
         \<and> groupedItems s4 = drop m (ungroupedItems s @ groupedItems s)
         \<and> (m < length (ungroupedItems s @ groupedItems s)
              \<longrightarrow> (\<exists>t. ungroupFirstItem (s4\<lparr>updateLock := b\<rparr>) = Some t \<and> overflows e t)))"
  using assms
proof (induction e s arbitrary: s3 s4 rule: ungroupWhileFitting.induct)
  case (1 e s)
  let ?r = "snd (areItemsOverflowing e s)"
  let ?all = "ungroupedItems s @ groupedItems s"
  have fst_r: "fst (areItemsOverflowing e s) = overflows e s"
    by (simp add: overflows_def)
  show ?case
  proof (cases "overflows e s")
    case ov: True
    with "1.prems"(2) have ju: "justUngrouped e s"
      by simp
    have s3: "s3 = s \<or> s3 = ?r"
      using "1.prems"(3) ov
      by (simp add: ungroupWhileFitting.simps [of e s] fst_r Let_def split: if_splits)
    have "areItemsOverflowing e s3 = (True, ?r)"
    proof (rule disjE [OF s3])
      assume "s3 = s"
      with ov show ?thesis by (simp add: overflows_def prod_eq_iff)
    next
      assume "s3 = ?r"
      with ov show ?thesis by (simp add: areItemsOverflowing_again)
    qed
    with "1.prems"(4) have g: "groupLastItem ?r = Some s4"
      by simp
    note undo = undo_last_ungroup [OF "1.prems"(1) ov ju g]
    from ov have ne: "ungroupedItems s \<noteq> []"
      by (rule overflows_nonempty)
    have take: "take (length (ungroupedItems s) - 1) ?all = butlast (ungroupedItems s)"
      by (simp add: butlast_conv_take)
    have drop: "drop (length (ungroupedItems s) - 1) ?all
        = last (ungroupedItems s) # groupedItems s"
      using ne by (cases "ungroupedItems s" rule: rev_cases) simp_all
    have "\<exists>m \<le> length ?all.
         (if overflows e s then Suc m = length (ungroupedItems s)
          else length (ungroupedItems s) \<le> m)
         \<and> ungroupedItems s4 = take m ?all \<and> groupedItems s4 = drop m ?all
         \<and> (m < length ?all
              \<longrightarrow> (\<exists>t. ungroupFirstItem (s4\<lparr>updateLock := b\<rparr>) = Some t \<and> overflows e t))"
      using ov ne undo(5,6) undo(7) [of b] take drop
      by (intro exI [of _ "length (ungroupedItems s) - 1"]) simp
    with undo(1-4) show ?thesis
      by blast
  next
    case no: False
    show ?thesis
    proof (cases "groupedItems s = []")
      case True
      with "1.prems"(3) have "s3 = s"
        by (simp add: ungroupWhileFitting.simps [of e s])
      with "1.prems"(4) no have s4: "s4 = ?r"
        by (simp add: fst_r Let_def)
      have "\<exists>m \<le> length ?all.
         (if overflows e s then Suc m = length (ungroupedItems s)
          else length (ungroupedItems s) \<le> m)
         \<and> ungroupedItems s4 = take m ?all \<and> groupedItems s4 = drop m ?all
         \<and> (m < length ?all
              \<longrightarrow> (\<exists>t. ungroupFirstItem (s4\<lparr>updateLock := b\<rparr>) = Some t \<and> overflows e t))"
        using no True
        by (intro exI [of _ "length (ungroupedItems s)"]) (simp add: s4 areItemsOverflowing_inv)
      then show ?thesis
        using "1.prems"(1) no
        by (simp add: s4 areItemsOverflowing_inv overflows_snd effectivePadding_snd)
    next
      case False
      with "1.prems"(3) no obtain s2 where u: "ungroupFirstItem ?r = Some s2"
        and rec: "ungroupWhileFitting e s2 = Some s3"
        by (auto simp: ungroupWhileFitting.simps [of e s] fst_r Let_def split: option.splits)
      have invr: "grouping_inv ?r"
        using "1.prems"(1) by (simp add: areItemsOverflowing_inv)
      note ui = ungroupFirstItem_inv [OF invr u]
      have ju: "overflows e s2 \<longrightarrow> justUngrouped e s2"
        using "1.prems"(1) no u by (auto simp: justUngrouped_def)
      have nf: "\<not> fst (areItemsOverflowing e s)"
        using no by (simp add: fst_r)
      from "1.IH" [OF False refl nf u ui(1) ju rec "1.prems"(4)]
      obtain m where ih: "grouping_inv s4" "untouched s2 s4"
        "effectivePadding e s4 = effectivePadding e s2" "\<not> overflows e s4"
        and m: "m \<le> length (ungroupedItems s2 @ groupedItems s2)"
          "if overflows e s2 then Suc m = length (ungroupedItems s2)
           else length (ungroupedItems s2) \<le> m"
          "ungroupedItems s4 = take m (ungroupedItems s2 @ groupedItems s2)"
          "groupedItems s4 = drop m (ungroupedItems s2 @ groupedItems s2)"
          "m < length (ungroupedItems s2 @ groupedItems s2)
              \<longrightarrow> (\<exists>t. ungroupFirstItem (s4\<lparr>updateLock := b\<rparr>) = Some t \<and> overflows e t)"
        by blast
      have all: "ungroupedItems s2 @ groupedItems s2 = ?all"
        using ui(2) by (simp add: areItemsOverflowing_inv)
      have len: "length (ungroupedItems s2) = Suc (length (ungroupedItems s))"
        using invr u by (cases rule: ungroupFirstItem_cases) (simp_all add: areItemsOverflowing_inv)
      have "effectivePadding e s2 = effectivePadding e s"
        using effectivePadding_cong [OF ui(4), of e] effectivePadding_snd [of e s] by simp
      moreover have "untouched s s4"
        using untouched_trans [OF untouched_trans [OF areItemsOverflowing_inv(5) ui(3)] ih(2)] .
      moreover have "\<exists>m \<le> length ?all.
         (if overflows e s then Suc m = length (ungroupedItems s)
          else length (ungroupedItems s) \<le> m)
         \<and> ungroupedItems s4 = take m ?all \<and> groupedItems s4 = drop m ?all
         \<and> (m < length ?all
              \<longrightarrow> (\<exists>t. ungroupFirstItem (s4\<lparr>updateLock := b\<rparr>) = Some t \<and> overflows e t))"
        using m no len unfolding all
        by (intro exI [of _ m]) (auto split: if_splits)
      ultimately show ?thesis
        using ih by simp
    qed
  qed
qed

subsection \<open>A whole call of updateGrouping\<close>

lemma groupLastItem_untouched:
  assumes "groupLastItem s = Some s'"
  shows "untouched s s'"
  using assms
  by (auto simp: groupLastItem_def components_add_char ungroupedItems_remove_char
      collection_last_def collection_add_front Option.bind_eq_Some_conv Let_def untouched_def
      split: if_splits)

lemma ungroupFirstItem_untouched:
  assumes "ungroupFirstItem s = Some s'"
  shows "untouched s s'"
  using assms
  by (auto simp: ungroupFirstItem_def components_remove_char ungroupedItems_add_char
      collection_first_def collection_last_def collection_remove_def collection_add_end
      Option.bind_eq_Some_conv untouched_def
      split: if_splits list.splits option.splits)

lemma groupWhileOverflowing_untouched:
  "groupWhileOverflowing e w s = Some (w', s') \<Longrightarrow> untouched s s'"
proof (induction e w s arbitrary: w' s' rule: groupWhileOverflowing.induct)
  case (1 e w s)
  show ?case
  proof (cases "fst (areItemsOverflowing e s)")
    case False
    with "1.prems" show ?thesis
      by (auto simp: groupWhileOverflowing.simps [of e w s] areItemsOverflowing_inv)
  next
    case True
    with "1.prems" obtain t where t: "groupLastItem (snd (areItemsOverflowing e s)) = Some t"
      and rec: "groupWhileOverflowing e True t = Some (w', s')"
      by (auto simp: groupWhileOverflowing.simps [of e w s] split: option.splits)
    from "1.IH" [OF refl True t rec] groupLastItem_untouched [OF t]
      areItemsOverflowing_inv(5) [of s e]
    show ?thesis
      by (blast intro: untouched_trans)
  qed
qed

lemma ungroupWhileFitting_untouched:
  "ungroupWhileFitting e s = Some s' \<Longrightarrow> untouched s s'"
proof (induction e s arbitrary: s' rule: ungroupWhileFitting.induct)
  case (1 e s)
  show ?case
  proof (cases "groupedItems s \<noteq> [] \<and> \<not> fst (areItemsOverflowing e s)")
    case False
    with "1.prems" show ?thesis
      by (auto simp: ungroupWhileFitting.simps [of e s] areItemsOverflowing_inv untouched_refl
          Let_def split: if_splits)
  next
    case True
    with "1.prems" obtain t where t: "ungroupFirstItem (snd (areItemsOverflowing e s)) = Some t"
      and rec: "ungroupWhileFitting e t = Some s'"
      by (auto simp: ungroupWhileFitting.simps [of e s] Let_def split: option.splits)
    from True have ne: "groupedItems s \<noteq> []" and nf: "\<not> fst (areItemsOverflowing e s)"
      by simp_all
    from "1.IH" [OF ne refl nf t rec] ungroupFirstItem_untouched [OF t]
      areItemsOverflowing_inv(5) [of s e]
    show ?thesis
      by (blast intro: untouched_trans)
  qed
qed

lemma updateGrouping_skips:
  assumes "updateLock s \<or> \<not> bodyContainsElement e"
  shows "updateGrouping e s = Some (s\<lparr>updateGroupingCalls := Suc (updateGroupingCalls s)\<rparr>)"
  using assms by (auto simp: updateGrouping_def Let_def)

text \<open>What a call of updateGrouping leaves alone, in any state.\<close>

lemma updateGrouping_frame:
  assumes "updateGrouping e s = Some s'"
  shows "items s' = items s" "shouldGroupWhenFull s' = shouldGroupWhenFull s"
    "previousWidth s' = previousWidth s" "warnings s' = warnings s"
    "updateGroupingCalls s' = Suc (updateGroupingCalls s)" "updateLock s' = updateLock s"
proof -
  let ?s = "s\<lparr>updateGroupingCalls := Suc (updateGroupingCalls s)\<rparr>"
  have "untouched ?s (s'\<lparr>updateLock := updateLock s\<rparr>) \<and> updateLock s' = updateLock s"
  proof (cases "updateLock s \<or> \<not> bodyContainsElement e")
    case True
    with assms updateGrouping_skips [of s e] show ?thesis
      by (auto simp: untouched_def)
  next
    case False
    with assms obtain w s1 s2 where
      g: "groupWhileOverflowing e False (?s\<lparr>updateLock := True\<rparr>) = Some (w, s1)"
      and s2: "(if \<not> w \<and> groupedItems s1 \<noteq> [] then do {
                 s3 \<leftarrow> ungroupWhileFitting e s1;
                 let r = areItemsOverflowing e s3;
                 if fst r then groupLastItem (snd r) else Some (snd r)
               } else Some s1) = Some s2"
      and s': "s' = s2\<lparr>updateLock := False\<rparr>"
      by (auto simp: updateGrouping_def Let_def Option.bind_eq_Some_conv)
    have "untouched s1 s2"
    proof (cases "\<not> w \<and> groupedItems s1 \<noteq> []")
      case False
      with s2 show ?thesis
        by (auto simp: untouched_refl)
    next
      case True
      with s2 obtain s3 where s3: "ungroupWhileFitting e s1 = Some s3"
        and fin: "(let r = areItemsOverflowing e s3 in
            if fst r then groupLastItem (snd r) else Some (snd r)) = Some s2"
        by (auto simp: Option.bind_eq_Some_conv)
      have "untouched s3 s2"
        using fin areItemsOverflowing_inv(5) [of s3 e]
          groupLastItem_untouched [of "snd (areItemsOverflowing e s3)" s2]
        by (auto simp: Let_def split: if_splits intro: untouched_trans)
      with ungroupWhileFitting_untouched [OF s3] show ?thesis
        by (rule untouched_trans)
    qed
    with groupWhileOverflowing_untouched [OF g] have "untouched (?s\<lparr>updateLock := True\<rparr>) s2"
      by (rule untouched_trans)
    with False show ?thesis
      by (simp add: untouched_def s')
  qed
  then show "items s' = items s" "shouldGroupWhenFull s' = shouldGroupWhenFull s"
    "previousWidth s' = previousWidth s" "warnings s' = warnings s"
    "updateGroupingCalls s' = Suc (updateGroupingCalls s)" "updateLock s' = updateLock s"
    by (simp_all add: untouched_def)
qed

lemma overflows_update [simp]:
  "overflows e (s\<lparr>updateLock := b\<rparr>) = overflows e s"
  "overflows e (s\<lparr>updateGroupingCalls := n\<rparr>) = overflows e s"
  by (rule overflows_cong; simp add: domTree_def renderView_def effectivePadding_def
      cong: view.case_cong)+

lemma grouping_inv_update [simp]:
  "grouping_inv (s\<lparr>updateLock := b\<rparr>) = grouping_inv s"
  "grouping_inv (s\<lparr>updateGroupingCalls := n\<rparr>) = grouping_inv s"
  "grouping_inv (s\<lparr>previousWidth := w\<rparr>) = grouping_inv s"
  "grouping_inv (s\<lparr>items := i\<rparr>) = grouping_inv s"
  "grouping_inv (s\<lparr>warnings := ws\<rparr>) = grouping_inv s"
  "grouping_inv (s\<lparr>nextViewId := k\<rparr>) = grouping_inv s"
  by (simp_all add: grouping_inv_def)

text \<open>What a call of updateGrouping that gets past its two guards returns.\<close>

lemma updateGrouping_result:
  assumes inv: "grouping_inv s" and att: "bodyContainsElement e" and unl: "\<not> updateLock s"
    and u: "updateGrouping e s = Some s'"
  shows "grouping_inv s' \<and> \<not> overflows e s'
    \<and> (\<exists>m \<le> length (ungroupedItems s @ groupedItems s).
         (if overflows e s then m < length (ungroupedItems s)
          else length (ungroupedItems s) \<le> m)
         \<and> ungroupedItems s' = take m (ungroupedItems s @ groupedItems s)
         \<and> groupedItems s' = drop m (ungroupedItems s @ groupedItems s)
         \<and> (\<not> overflows e s \<and> m < length (ungroupedItems s @ groupedItems s)
              \<longrightarrow> (\<exists>t. ungroupFirstItem s' = Some t \<and> overflows e t)))"
proof -
  let ?s = "s\<lparr>updateGroupingCalls := Suc (updateGroupingCalls s), updateLock := True\<rparr>"
  let ?all = "ungroupedItems s @ groupedItems s"
  from u att unl obtain w s1 s2 where
    g: "groupWhileOverflowing e False ?s = Some (w, s1)"
    and s2: "(if \<not> w \<and> groupedItems s1 \<noteq> [] then do {
               s3 \<leftarrow> ungroupWhileFitting e s1;
               let r = areItemsOverflowing e s3;
               if fst r then groupLastItem (snd r) else Some (snd r)
             } else Some s1) = Some s2"
    and s': "s' = s2\<lparr>updateLock := False\<rparr>"
    by (auto simp: updateGrouping_def Let_def Option.bind_eq_Some_conv)
  have invs: "grouping_inv ?s"
    using inv by simp
  have ovs: "overflows e ?s = overflows e s"
    by simp
  from groupWhileOverflowing_result [OF invs g] ovs
  obtain k where l: "grouping_inv s1" "\<not> overflows e s1" "w = overflows e s"
    and k: "k \<le> length (ungroupedItems s)" "overflows e s \<longleftrightarrow> k < length (ungroupedItems s)"
      "ungroupedItems s1 = take k (ungroupedItems s)"
      "groupedItems s1 = drop k (ungroupedItems s) @ groupedItems s"
    by auto
  have all1: "ungroupedItems s1 @ groupedItems s1 = ?all"
    using k by simp
  show ?thesis
  proof (cases "\<not> w \<and> groupedItems s1 \<noteq> []")
    case True
    with s2 obtain s3 where s3: "ungroupWhileFitting e s1 = Some s3"
      and fin: "(let r = areItemsOverflowing e s3 in
          if fst r then groupLastItem (snd r) else Some (snd r)) = Some s2"
      by (auto simp: Option.bind_eq_Some_conv)
    from l(2) have ju: "overflows e s1 \<longrightarrow> justUngrouped e s1"
      by simp
    from True l(3) have no: "\<not> overflows e s"
      by simp
    with k(1,2) have keq: "k = length (ungroupedItems s)"
      by simp
    note ph = ungroup_phase [OF l(1) ju s3 fin, of False]
    from ph have p: "grouping_inv s2" "\<not> overflows e s2"
      by blast+
    from ph obtain m where m0: "m \<le> length (ungroupedItems s1 @ groupedItems s1)"
        "if overflows e s1 then Suc m = length (ungroupedItems s1)
         else length (ungroupedItems s1) \<le> m"
      and m: "ungroupedItems s2 = take m (ungroupedItems s1 @ groupedItems s1)"
        "groupedItems s2 = drop m (ungroupedItems s1 @ groupedItems s1)"
        "m < length (ungroupedItems s1 @ groupedItems s1)
           \<longrightarrow> (\<exists>t. ungroupFirstItem (s2\<lparr>updateLock := False\<rparr>) = Some t \<and> overflows e t)"
      by blast
    from m0(2) l(2) have m1: "length (ungroupedItems s1) \<le> m"
      by simp
    have "\<exists>m \<le> length ?all.
         (if overflows e s then m < length (ungroupedItems s)
          else length (ungroupedItems s) \<le> m)
         \<and> ungroupedItems s' = take m ?all \<and> groupedItems s' = drop m ?all
         \<and> (\<not> overflows e s \<and> m < length ?all
              \<longrightarrow> (\<exists>t. ungroupFirstItem s' = Some t \<and> overflows e t))"
      using m m0(1) m1 no keq k(3) unfolding all1 s'
      by (intro exI [of _ m]) simp
    with p show ?thesis
      by (simp add: s')
  next
    case False
    with s2 have eq: "s2 = s1"
      by (simp split: if_splits)
    have "\<not> overflows e s \<longrightarrow> k = length ?all"
      using False l(3) k(1,2,4) by auto
    then have "\<exists>m \<le> length ?all.
         (if overflows e s then m < length (ungroupedItems s)
          else length (ungroupedItems s) \<le> m)
         \<and> ungroupedItems s' = take m ?all \<and> groupedItems s' = drop m ?all
         \<and> (\<not> overflows e s \<and> m < length ?all
              \<longrightarrow> (\<exists>t. ungroupFirstItem s' = Some t \<and> overflows e t))"
      using k unfolding s' eq
      by (intro exI [of _ k]) auto
    with l show ?thesis
      by (simp add: s' eq)
  qed
qed


subsection \<open>The moves of a call\<close>

lemma moves_snd: "moves (snd (areItemsOverflowing e s)) = moves s"
  by (simp add: areItemsOverflowing_snd)

text \<open>The moves of the grouping loop: the items it took off the end, the last one first.\<close>

lemma groupWhileOverflowing_moves:
  assumes "grouping_inv s" "groupWhileOverflowing e w s = Some (w', s')"
  shows "length (ungroupedItems s') \<le> length (ungroupedItems s)
    \<and> moves s' = moves s
        @ map Grouped (rev (drop (length (ungroupedItems s')) (ungroupedItems s)))"
  using assms
proof (induction e w s arbitrary: w' s' rule: groupWhileOverflowing.induct)
  case (1 e w s)
  let ?r = "areItemsOverflowing e s"
  show ?case
  proof (cases "fst ?r")
    case False
    with "1.prems"(2) have "s' = snd ?r"
      by (simp add: groupWhileOverflowing.simps [of e w s])
    then show ?thesis
      by (simp add: areItemsOverflowing_inv moves_snd)
  next
    case True
    from True "1.prems"(2) obtain t where t: "groupLastItem (snd ?r) = Some t"
      and rec: "groupWhileOverflowing e True t = Some (w', s')"
      by (auto simp: groupWhileOverflowing.simps [of e w s] split: option.splits)
    have invr: "grouping_inv (snd ?r)"
      using "1.prems"(1) by (simp add: areItemsOverflowing_inv)
    from invr t obtain u x where ux: "ungroupedItems s = u @ [x]"
      and tu: "ungroupedItems t = u" and tm: "moves t = moves s @ [Grouped x]"
      by (cases rule: groupLastItem_cases) (auto simp: areItemsOverflowing_inv moves_snd)
    from "1.IH" [OF refl True t groupLastItem_inv(1) [OF invr t] rec]
    have ih: "length (ungroupedItems s') \<le> length u"
      "moves s' = moves t @ map Grouped (rev (drop (length (ungroupedItems s')) u))"
      by (simp_all add: tu)
    from ih show ?thesis
      by (simp add: ux tm)
  qed
qed

text \<open>
  The moves of the ungrouping loop: the first \<open>j\<close> grouped items, in order. The loop stops
  with nothing grouped or with an overflow, and it makes at least one move when it
  starts with something grouped and no overflow.
\<close>

lemma ungroupWhileFitting_moves:
  assumes "grouping_inv s" "ungroupWhileFitting e s = Some s3"
  shows "\<exists>j \<le> length (groupedItems s).
      ungroupedItems s3 = ungroupedItems s @ take j (groupedItems s)
      \<and> groupedItems s3 = drop j (groupedItems s)
      \<and> moves s3 = moves s @ map Ungrouped (take j (groupedItems s))
      \<and> (\<not> overflows e s \<and> groupedItems s \<noteq> [] \<longrightarrow> 0 < j)
      \<and> (groupedItems s3 = [] \<or> overflows e s3)
      \<and> grouping_inv s3"
  using assms
proof (induction e s arbitrary: s3 rule: ungroupWhileFitting.induct)
  case (1 e s)
  let ?r = "areItemsOverflowing e s"
  have fst_r: "fst ?r = overflows e s"
    by (simp add: overflows_def)
  show ?case
  proof (cases "groupedItems s \<noteq> [] \<and> \<not> overflows e s")
    case False
    with "1.prems"(2) have "s3 = s \<and> groupedItems s = [] \<or> s3 = snd ?r \<and> overflows e s"
      by (auto simp: ungroupWhileFitting.simps [of e s] fst_r Let_def split: if_splits)
    with "1.prems"(1) show ?thesis
      by (intro exI [of _ 0]) (auto simp: areItemsOverflowing_inv moves_snd overflows_snd)
  next
    case True
    then have ne: "groupedItems s \<noteq> []" and nf: "\<not> fst ?r"
      by (simp_all add: fst_r)
    with "1.prems"(2) obtain s2 where u: "ungroupFirstItem (snd ?r) = Some s2"
      and rec: "ungroupWhileFitting e s2 = Some s3"
      by (auto simp: ungroupWhileFitting.simps [of e s] Let_def split: option.splits)
    have invr: "grouping_inv (snd ?r)"
      using "1.prems"(1) by (simp add: areItemsOverflowing_inv)
    from invr u obtain x g where xg: "groupedItems s = x # g"
      and s2: "ungroupedItems s2 = ungroupedItems s @ [x]" "groupedItems s2 = g"
        "moves s2 = moves s @ [Ungrouped x]"
      by (cases rule: ungroupFirstItem_cases) (auto simp: areItemsOverflowing_inv moves_snd)
    from "1.IH" [OF ne refl nf u ungroupFirstItem_inv(1) [OF invr u] rec]
    obtain j where j: "j \<le> length g"
      "ungroupedItems s3 = (ungroupedItems s @ [x]) @ take j g"
      "groupedItems s3 = drop j g"
      "moves s3 = (moves s @ [Ungrouped x]) @ map Ungrouped (take j g)"
      "groupedItems s3 = [] \<or> overflows e s3" "grouping_inv s3"
      unfolding s2 by blast
    show ?thesis
      using j by (intro exI [of _ "Suc j"]) (simp add: xg)
  qed
qed

text \<open>The moves of a whole call that gets past its two guards.\<close>

lemma updateGrouping_moves:
  assumes inv: "grouping_inv s" and att: "bodyContainsElement e" and unl: "\<not> updateLock s"
    and u: "updateGrouping e s = Some s'"
  shows "if overflows e s
    then moves s' = moves s
        @ map Grouped (rev (drop (length (ungroupedItems s')) (ungroupedItems s)))
    else \<exists>j \<le> length (groupedItems s).
      (groupedItems s' = []
         \<and> ungroupedItems s' = ungroupedItems s @ groupedItems s
         \<and> moves s' = moves s @ map Ungrouped (groupedItems s))
      \<or> (0 < j
         \<and> ungroupedItems s' = ungroupedItems s @ take (j - 1) (groupedItems s)
         \<and> moves s' = moves s @ map Ungrouped (take j (groupedItems s))
             @ [Grouped (groupedItems s ! (j - 1))])"
proof -
  let ?s = "s\<lparr>updateGroupingCalls := Suc (updateGroupingCalls s), updateLock := True\<rparr>"
  from u att unl obtain w s1 s2 where
    g: "groupWhileOverflowing e False ?s = Some (w, s1)"
    and s2: "(if \<not> w \<and> groupedItems s1 \<noteq> [] then do {
               s3 \<leftarrow> ungroupWhileFitting e s1;
               let r = areItemsOverflowing e s3;
               if fst r then groupLastItem (snd r) else Some (snd r)
             } else Some s1) = Some s2"
    and s': "s' = s2\<lparr>updateLock := False\<rparr>"
    by (auto simp: updateGrouping_def Let_def Option.bind_eq_Some_conv)
  have invs: "grouping_inv ?s"
    using inv by simp
  from groupWhileOverflowing_result [OF invs g]
  obtain k where l: "grouping_inv s1" "\<not> overflows e s1" "w = overflows e s"
    and k: "k \<le> length (ungroupedItems s)" "overflows e s \<longleftrightarrow> k < length (ungroupedItems s)"
      "ungroupedItems s1 = take k (ungroupedItems s)"
      "groupedItems s1 = drop k (ungroupedItems s) @ groupedItems s"
    by auto
  from groupWhileOverflowing_moves [OF invs g]
  have m1: "moves s1 = moves s
      @ map Grouped (rev (drop (length (ungroupedItems s1)) (ungroupedItems s)))"
    by simp
  show ?thesis
  proof (cases "overflows e s")
    case True
    with l(3) s2 have "s2 = s1"
      by simp
    with True m1 show ?thesis
      by (simp add: s')
  next
    case no: False
    with k have u1: "ungroupedItems s1 = ungroupedItems s" and g1: "groupedItems s1 = groupedItems s"
      by simp_all
    from m1 u1 have m1': "moves s1 = moves s"
      by simp
    show ?thesis
    proof (cases "groupedItems s1 = []")
      case True
      with s2 have "s2 = s1"
        by simp
      with True u1 g1 m1' have "\<exists>j \<le> length (groupedItems s).
      (groupedItems s' = []
         \<and> ungroupedItems s' = ungroupedItems s @ groupedItems s
         \<and> moves s' = moves s @ map Ungrouped (groupedItems s))
      \<or> (0 < j
         \<and> ungroupedItems s' = ungroupedItems s @ take (j - 1) (groupedItems s)
         \<and> moves s' = moves s @ map Ungrouped (take j (groupedItems s))
             @ [Grouped (groupedItems s ! (j - 1))])"
        by (intro exI [of _ 0]) (simp add: s')
      with no show ?thesis
        by simp
    next
      case ne: False
      with no l(3) s2 obtain s3 where s3: "ungroupWhileFitting e s1 = Some s3"
        and fin: "(let r = areItemsOverflowing e s3 in
            if fst r then groupLastItem (snd r) else Some (snd r)) = Some s2"
        by (auto simp: Option.bind_eq_Some_conv)
      from ungroupWhileFitting_moves [OF l(1) s3] l(2) ne
      obtain j where j: "j \<le> length (groupedItems s)" "0 < j"
        "ungroupedItems s3 = ungroupedItems s @ take j (groupedItems s)"
        "groupedItems s3 = drop j (groupedItems s)"
        "moves s3 = moves s @ map Ungrouped (take j (groupedItems s))"
        "groupedItems s3 = [] \<or> overflows e s3" "grouping_inv s3"
        unfolding u1 g1 m1' by blast
      let ?r = "areItemsOverflowing e s3"
      have fst_r: "fst ?r = overflows e s3"
        by (simp add: overflows_def)
      show ?thesis
      proof (cases "overflows e s3")
        case False
        with fin have "s2 = snd ?r"
          by (simp add: fst_r Let_def)
        moreover from False j(6) have "groupedItems s3 = []"
          by simp
        moreover from this j(1,4) have "take j (groupedItems s) = groupedItems s"
          by simp
        ultimately have "\<exists>j \<le> length (groupedItems s).
      (groupedItems s' = []
         \<and> ungroupedItems s' = ungroupedItems s @ groupedItems s
         \<and> moves s' = moves s @ map Ungrouped (groupedItems s))
      \<or> (0 < j
         \<and> ungroupedItems s' = ungroupedItems s @ take (j - 1) (groupedItems s)
         \<and> moves s' = moves s @ map Ungrouped (take j (groupedItems s))
             @ [Grouped (groupedItems s ! (j - 1))])"
          using j by (intro exI [of _ j]) (simp add: s' areItemsOverflowing_inv moves_snd)
        with no show ?thesis
          by simp
      next
        case True
        with fin have gl: "groupLastItem (snd ?r) = Some s2"
          by (simp add: fst_r Let_def)
        have inv3: "grouping_inv (snd ?r)"
          using j(7) by (simp add: areItemsOverflowing_inv)
        from j(1,2) have tk: "take j (groupedItems s)
            = take (j - 1) (groupedItems s) @ [groupedItems s ! (j - 1)]"
          using take_Suc_conv_app_nth [of "j - 1" "groupedItems s"] by simp
        from inv3 gl obtain u x where ux: "ungroupedItems s3 = u @ [x]"
          and r: "ungroupedItems s2 = u" "moves s2 = moves s3 @ [Grouped x]"
          by (cases rule: groupLastItem_cases) (auto simp: areItemsOverflowing_inv moves_snd)
        from ux j(3) tk have "u = ungroupedItems s @ take (j - 1) (groupedItems s)"
          and "x = groupedItems s ! (j - 1)"
          by simp_all
        with r j(5) have "ungroupedItems s' = ungroupedItems s @ take (j - 1) (groupedItems s)"
          "moves s' = moves s @ map Ungrouped (take j (groupedItems s))
             @ [Grouped (groupedItems s ! (j - 1))]"
          by (simp_all add: s')
        with j(1,2) have "\<exists>j \<le> length (groupedItems s).
      (groupedItems s' = []
         \<and> ungroupedItems s' = ungroupedItems s @ groupedItems s
         \<and> moves s' = moves s @ map Ungrouped (groupedItems s))
      \<or> (0 < j
         \<and> ungroupedItems s' = ungroupedItems s @ take (j - 1) (groupedItems s)
         \<and> moves s' = moves s @ map Ungrouped (take j (groupedItems s))
             @ [Grouped (groupedItems s ! (j - 1))])"
          by (intro exI [of _ j]) simp
        with no show ?thesis
          by simp
      qed
    qed
  qed
qed

subsection \<open>When updateGrouping returns\<close>

text \<open>
  A state in which the dropdown is shown only when something is grouped. In such a state
  no collection operation of \<^verbatim>\<open>updateGrouping\<close> throws.
\<close>

definition dropdown_inv :: "toolbar \<Rightarrow> bool" where
  "dropdown_inv s \<longleftrightarrow> grouping_inv s \<and> (groupedItems s = [] \<longrightarrow> components s = [ItemsView])"

lemma groupLastItem_returns:
  assumes "dropdown_inv s" "ungroupedItems s \<noteq> []"
  shows "\<exists>s'. groupLastItem s = Some s' \<and> dropdown_inv s'"
proof -
  from assms(2) obtain u x where ux: "ungroupedItems s = u @ [x]"
    by (metis rev_exhaust)
  from assms(1) ux have d: "distinct (u @ [x])" and xg: "x \<notin> set (groupedItems s)"
    and gi: "grouping_inv s"
    by (auto simp: dropdown_inv_def grouping_inv_def)
  show ?thesis
  proof (cases "groupedItems s = []")
    case True
    with assms(1) have c: "components s = [ItemsView]"
      by (simp add: dropdown_inv_def)
    from groupLastItem_first [OF True ux d c] groupLastItem_inv(1) [OF gi] show ?thesis
      by (auto simp: dropdown_inv_def)
  next
    case False
    from groupLastItem_more [OF False ux d xg] groupLastItem_inv(1) [OF gi] show ?thesis
      by (auto simp: dropdown_inv_def)
  qed
qed

lemma ungroupFirstItem_returns:
  assumes "grouping_inv s" "groupedItems s \<noteq> []"
  shows "\<exists>s'. ungroupFirstItem s = Some s' \<and> dropdown_inv s'"
proof -
  from assms(2) obtain x g where xg: "groupedItems s = x # g"
    by (cases "groupedItems s") auto
  from assms(1) xg have d: "distinct (ungroupedItems s @ [x])"
    by (auto simp: grouping_inv_def)
  from assms(1) xg obtain k where
    c: "components s = [ItemsView, Item (ToolbarSeparatorView k), GroupedItemsDropdown]"
    by (auto simp: grouping_inv_def)
  show ?thesis
  proof (cases "g = []")
    case True
    with xg have "groupedItems s = [x]" by simp
    from ungroupFirstItem_last [OF this d c] ungroupFirstItem_inv(1) [OF assms(1)] show ?thesis
      by (auto simp: dropdown_inv_def)
  next
    case False
    from ungroupFirstItem_more [OF xg False d] ungroupFirstItem_inv(1) [OF assms(1)] False
    show ?thesis
      by (auto simp: dropdown_inv_def)
  qed
qed

lemma dropdown_inv_snd:
  "dropdown_inv (snd (areItemsOverflowing e s)) = dropdown_inv s"
  by (simp add: dropdown_inv_def areItemsOverflowing_inv)

lemma groupWhileOverflowing_returns:
  "dropdown_inv s \<Longrightarrow> \<exists>w' s'. groupWhileOverflowing e w s = Some (w', s') \<and> dropdown_inv s'"
proof (induction e w s rule: groupWhileOverflowing.induct)
  case (1 e w s)
  let ?r = "areItemsOverflowing e s"
  show ?case
  proof (cases "fst ?r")
    case False
    with "1.prems" show ?thesis
      by (simp add: groupWhileOverflowing.simps [of e w s] dropdown_inv_snd)
  next
    case True
    then have "ungroupedItems (snd ?r) \<noteq> []"
      using overflows_nonempty [of e s] by (simp add: overflows_def areItemsOverflowing_inv)
    with "1.prems" groupLastItem_returns [of "snd ?r"] obtain t where
      t: "groupLastItem (snd ?r) = Some t" "dropdown_inv t"
      by (auto simp: dropdown_inv_snd)
    from "1.IH" [OF refl True t] True t(1) show ?thesis
      by (simp add: groupWhileOverflowing.simps [of e w s])
  qed
qed

lemma ungroupWhileFitting_returns:
  "dropdown_inv s \<Longrightarrow> \<exists>s'. ungroupWhileFitting e s = Some s' \<and> dropdown_inv s'"
proof (induction e s rule: ungroupWhileFitting.induct)
  case (1 e s)
  let ?r = "areItemsOverflowing e s"
  show ?case
  proof (cases "groupedItems s \<noteq> [] \<and> \<not> fst ?r")
    case False
    with "1.prems" show ?thesis
      by (auto simp: ungroupWhileFitting.simps [of e s] dropdown_inv_snd Let_def)
  next
    case True
    then have ne: "groupedItems s \<noteq> []" and nf: "\<not> fst ?r"
      by simp_all
    from "1.prems" ne ungroupFirstItem_returns [of "snd ?r"] obtain t where
      t: "ungroupFirstItem (snd ?r) = Some t" "dropdown_inv t"
      by (auto simp: dropdown_inv_def areItemsOverflowing_inv)
    from "1.IH" [OF ne refl nf t] ne nf t(1) show ?thesis
      by (simp add: ungroupWhileFitting.simps [of e s] Let_def)
  qed
qed

text \<open>
  In a state in which the dropdown is shown only when something is grouped,
  \<^verbatim>\<open>updateGrouping\<close> returns, and returns such a state.
\<close>

lemma updateGrouping_returns:
  assumes "dropdown_inv s"
  shows "\<exists>s'. updateGrouping e s = Some s' \<and> dropdown_inv s'"
proof (cases "updateLock s \<or> \<not> bodyContainsElement e")
  case True
  from updateGrouping_skips [OF True] assms show ?thesis
    by (simp add: dropdown_inv_def)
next
  case False
  let ?s = "s\<lparr>updateGroupingCalls := Suc (updateGroupingCalls s), updateLock := True\<rparr>"
  from assms have "dropdown_inv ?s"
    by (simp add: dropdown_inv_def)
  from groupWhileOverflowing_returns [OF this, of e False] obtain w s1 where
    g: "groupWhileOverflowing e False ?s = Some (w, s1)" and d1: "dropdown_inv s1"
    by blast
  have "\<exists>s2. (if \<not> w \<and> groupedItems s1 \<noteq> [] then do {
               s3 \<leftarrow> ungroupWhileFitting e s1;
               let r = areItemsOverflowing e s3;
               if fst r then groupLastItem (snd r) else Some (snd r)
             } else Some s1) = Some s2 \<and> dropdown_inv s2"
  proof (cases "\<not> w \<and> groupedItems s1 \<noteq> []")
    case False
    with d1 show ?thesis
      by auto
  next
    case True
    from ungroupWhileFitting_returns [OF d1, of e] obtain s3 where
      s3: "ungroupWhileFitting e s1 = Some s3" "dropdown_inv s3"
      by blast
    let ?r = "areItemsOverflowing e s3"
    have "\<exists>s2. (if fst ?r then groupLastItem (snd ?r) else Some (snd ?r)) = Some s2
        \<and> dropdown_inv s2"
    proof (cases "fst ?r")
      case False
      with s3(2) show ?thesis
        by (simp add: dropdown_inv_snd)
    next
      case True
      then have "ungroupedItems (snd ?r) \<noteq> []"
        using overflows_nonempty [of e s3] by (simp add: overflows_def areItemsOverflowing_inv)
      with s3(2) groupLastItem_returns [of "snd ?r"] True show ?thesis
        by (simp add: dropdown_inv_snd)
    qed
    with True s3(1) show ?thesis
      by (simp add: Let_def)
  qed
  then obtain s2 where s2: "(if \<not> w \<and> groupedItems s1 \<noteq> [] then do {
               s3 \<leftarrow> ungroupWhileFitting e s1;
               let r = areItemsOverflowing e s3;
               if fst r then groupLastItem (snd r) else Some (snd r)
             } else Some s1) = Some s2" and d2: "dropdown_inv s2"
    by blast
  from False g s2 have "updateGrouping e s = Some (s2\<lparr>updateLock := False\<rparr>)"
    by (simp add: updateGrouping_def Let_def)
  with d2 show ?thesis
    by (simp add: dropdown_inv_def)
qed

subsection \<open>The separator before the dropdown\<close>

text \<open>
  Every separator in \<^verbatim>\<open>_components\<close> was created before: its number is below the number
  the next new view will get.
\<close>

definition separator_fresh :: "toolbar \<Rightarrow> bool" where
  "separator_fresh s \<longleftrightarrow>
     (\<forall>k. Item (ToolbarSeparatorView k) \<in> set (components s) \<longrightarrow> k < nextViewId s)"

lemma separator_fresh_snd:
  "separator_fresh (snd (areItemsOverflowing e s)) = separator_fresh s"
  by (simp add: areItemsOverflowing_snd separator_fresh_def)

lemma separator_fresh_update [simp]:
  "separator_fresh (s\<lparr>updateLock := b\<rparr>) = separator_fresh s"
  "separator_fresh (s\<lparr>updateGroupingCalls := n\<rparr>) = separator_fresh s"
  "separator_fresh (s\<lparr>previousWidth := w\<rparr>) = separator_fresh s"
  "separator_fresh (s\<lparr>items := i\<rparr>) = separator_fresh s"
  "separator_fresh (s\<lparr>warnings := ws\<rparr>) = separator_fresh s"
  "separator_fresh (s\<lparr>ungroupedItems := u\<rparr>) = separator_fresh s"
  "separator_fresh (s\<lparr>groupedItems := g\<rparr>) = separator_fresh s"
  "separator_fresh (s\<lparr>focusCycleableItems := f\<rparr>) = separator_fresh s"
  by (simp_all add: separator_fresh_def)

lemma separator_fresh_next:
  "separator_fresh s \<Longrightarrow> separator_fresh (s\<lparr>nextViewId := Suc (nextViewId s)\<rparr>)"
  by (auto simp: separator_fresh_def less_Suc_eq)

lemma groupLastItem_fresh:
  assumes "grouping_inv s" "separator_fresh s" "groupLastItem s = Some s'"
  shows "separator_fresh s'"
  using assms(1,3,2)
  by (cases rule: groupLastItem_cases) (auto simp: separator_fresh_def)

lemma ungroupFirstItem_fresh:
  assumes "grouping_inv s" "separator_fresh s" "ungroupFirstItem s = Some s'"
  shows "separator_fresh s'"
  using assms(1,3,2)
  by (cases rule: ungroupFirstItem_cases) (auto simp: separator_fresh_def)

lemma groupWhileOverflowing_fresh:
  "grouping_inv s \<Longrightarrow> separator_fresh s \<Longrightarrow> groupWhileOverflowing e w s = Some (w', s')
     \<Longrightarrow> separator_fresh s'"
proof (induction e w s arbitrary: w' s' rule: groupWhileOverflowing.induct)
  case (1 e w s)
  let ?r = "areItemsOverflowing e s"
  show ?case
  proof (cases "fst ?r")
    case False
    with "1.prems" show ?thesis
      by (auto simp: groupWhileOverflowing.simps [of e w s] separator_fresh_snd)
  next
    case True
    with "1.prems"(3) obtain t where t: "groupLastItem (snd ?r) = Some t"
      and rec: "groupWhileOverflowing e True t = Some (w', s')"
      by (auto simp: groupWhileOverflowing.simps [of e w s] split: option.splits)
    have invr: "grouping_inv (snd ?r)" and fr: "separator_fresh (snd ?r)"
      using "1.prems"(1,2) by (simp_all add: areItemsOverflowing_inv separator_fresh_snd)
    from "1.IH" [OF refl True t groupLastItem_inv(1) [OF invr t]
        groupLastItem_fresh [OF invr fr t] rec]
    show ?thesis .
  qed
qed

lemma ungroupWhileFitting_fresh:
  "grouping_inv s \<Longrightarrow> separator_fresh s \<Longrightarrow> ungroupWhileFitting e s = Some s'
     \<Longrightarrow> separator_fresh s'"
proof (induction e s arbitrary: s' rule: ungroupWhileFitting.induct)
  case (1 e s)
  let ?r = "areItemsOverflowing e s"
  show ?case
  proof (cases "groupedItems s \<noteq> [] \<and> \<not> fst ?r")
    case False
    with "1.prems" show ?thesis
      by (auto simp: ungroupWhileFitting.simps [of e s] separator_fresh_snd Let_def
          split: if_splits)
  next
    case True
    then have ne: "groupedItems s \<noteq> []" and nf: "\<not> fst ?r"
      by simp_all
    with "1.prems"(3) obtain t where t: "ungroupFirstItem (snd ?r) = Some t"
      and rec: "ungroupWhileFitting e t = Some s'"
      by (auto simp: ungroupWhileFitting.simps [of e s] Let_def split: option.splits)
    have invr: "grouping_inv (snd ?r)" and fr: "separator_fresh (snd ?r)"
      using "1.prems"(1,2) by (simp_all add: areItemsOverflowing_inv separator_fresh_snd)
    from "1.IH" [OF ne refl nf t ungroupFirstItem_inv(1) [OF invr t]
        ungroupFirstItem_fresh [OF invr fr t] rec]
    show ?thesis .
  qed
qed

lemma updateGrouping_fresh:
  assumes inv: "grouping_inv s" and fr: "separator_fresh s"
    and u: "updateGrouping e s = Some s'"
  shows "separator_fresh s'"
proof (cases "updateLock s \<or> \<not> bodyContainsElement e")
  case True
  from updateGrouping_skips [OF True] u fr show ?thesis
    by auto
next
  case False
  let ?s = "s\<lparr>updateGroupingCalls := Suc (updateGroupingCalls s), updateLock := True\<rparr>"
  from u False obtain w s1 s2 where
    g: "groupWhileOverflowing e False ?s = Some (w, s1)"
    and s2: "(if \<not> w \<and> groupedItems s1 \<noteq> [] then do {
               s3 \<leftarrow> ungroupWhileFitting e s1;
               let r = areItemsOverflowing e s3;
               if fst r then groupLastItem (snd r) else Some (snd r)
             } else Some s1) = Some s2"
    and s': "s' = s2\<lparr>updateLock := False\<rparr>"
    by (auto simp: updateGrouping_def Let_def Option.bind_eq_Some_conv)
  have invs: "grouping_inv ?s" and frs: "separator_fresh ?s"
    using inv fr by simp_all
  from groupWhileOverflowing_result [OF invs g] have inv1: "grouping_inv s1"
    by blast
  note fr1 = groupWhileOverflowing_fresh [OF invs frs g]
  have "separator_fresh s2"
  proof (cases "\<not> w \<and> groupedItems s1 \<noteq> []")
    case False
    with s2 fr1 show ?thesis
      by auto
  next
    case True
    with s2 obtain s3 where s3: "ungroupWhileFitting e s1 = Some s3"
      and fin: "(let r = areItemsOverflowing e s3 in
          if fst r then groupLastItem (snd r) else Some (snd r)) = Some s2"
      by (auto simp: Option.bind_eq_Some_conv)
    from ungroupWhileFitting_moves [OF inv1 s3] have inv3: "grouping_inv s3"
      by blast
    note fr3 = ungroupWhileFitting_fresh [OF inv1 fr1 s3]
    let ?r = "areItemsOverflowing e s3"
    have invr: "grouping_inv (snd ?r)" and frr: "separator_fresh (snd ?r)"
      using inv3 fr3 by (simp_all add: areItemsOverflowing_inv separator_fresh_snd)
    from fin groupLastItem_fresh [OF invr frr] frr show ?thesis
      by (auto simp: Let_def split: if_splits)
  qed
  then show ?thesis
    by (simp add: s')
qed

section \<open>Reachable states\<close>

text \<open>
  What holds between two operations of a toolbar created with \<^verbatim>\<open>shouldGroupWhenFull\<close>: no
  update is in progress, the three collections are as above, the separator in
  \<^verbatim>\<open>_components\<close> is not a view still to be created, and \<open>items\<close> is the ungrouped items
  followed by the grouped ones.
\<close>

definition toolbar_inv :: "toolbar \<Rightarrow> bool" where
  "toolbar_inv s \<longleftrightarrow>
     shouldGroupWhenFull s \<and> \<not> updateLock s \<and> grouping_inv s \<and> separator_fresh s
     \<and> ungroupedItems s @ groupedItems s = items s"

text \<open>
  The states of a toolbar created with \<^verbatim>\<open>shouldGroupWhenFull\<close>: the state the constructor
  leaves, and every state that a call of \<^verbatim>\<open>items.add\<close>, \<^verbatim>\<open>items.remove\<close>,
  \<^verbatim>\<open>fillFromConfig\<close>, \<^verbatim>\<open>updateGrouping\<close>, \<^verbatim>\<open>enableGroupingOnResize\<close>, the resize callback,
  \<^verbatim>\<open>groupLastItem\<close> or \<^verbatim>\<open>ungroupFirstItem\<close> returns from one of them. The browser may
  change between two calls, so each step has an environment of its own. A call that
  throws leads nowhere.
\<close>

inductive reachable :: "toolbar \<Rightarrow> bool" where
  new: "reachable (ToolbarView True)"
| add: "reachable s \<Longrightarrow> items_add e x index s = Some s' \<Longrightarrow> reachable s'"
| remove: "reachable s \<Longrightarrow> items_remove e x s = Some s' \<Longrightarrow> reachable s'"
| fill: "reachable s \<Longrightarrow> fillFromConfig e config s = (config', Some s') \<Longrightarrow> reachable s'"
| update: "reachable s \<Longrightarrow> updateGrouping e s = Some s' \<Longrightarrow> reachable s'"
| enable: "reachable s \<Longrightarrow> enableGroupingOnResize e s = Some s' \<Longrightarrow> reachable s'"
| resize: "reachable s \<Longrightarrow> resizeCallback e width s = Some s' \<Longrightarrow> reachable s'"
| group: "reachable s \<Longrightarrow> groupLastItem s = Some s' \<Longrightarrow> reachable s'"
| ungroup: "reachable s \<Longrightarrow> ungroupFirstItem s = Some s' \<Longrightarrow> reachable s'"

lemma updateGrouping_inv:
  assumes "grouping_inv s" "updateGrouping e s = Some s'"
  shows "grouping_inv s'"
    and "ungroupedItems s' @ groupedItems s' = ungroupedItems s @ groupedItems s"
proof -
  have "grouping_inv s'
    \<and> ungroupedItems s' @ groupedItems s' = ungroupedItems s @ groupedItems s"
  proof (cases "updateLock s \<or> \<not> bodyContainsElement e")
    case True
    from updateGrouping_skips [OF True] assms show ?thesis
      by auto
  next
    case False
    then have "bodyContainsElement e" "\<not> updateLock s"
      by simp_all
    from updateGrouping_result [OF assms(1) this assms(2)] obtain m where
      "grouping_inv s'" "ungroupedItems s' = take m (ungroupedItems s @ groupedItems s)"
      "groupedItems s' = drop m (ungroupedItems s @ groupedItems s)"
      by blast
    then show ?thesis
      by (metis append_take_drop_id)
  qed
  then show "grouping_inv s'"
    and "ungroupedItems s' @ groupedItems s' = ungroupedItems s @ groupedItems s"
    by simp_all
qed

lemma updateGrouping_toolbar_inv:
  assumes "toolbar_inv s" "updateGrouping e s = Some s'"
  shows "toolbar_inv s'"
  using assms updateGrouping_inv [OF _ assms(2)] updateGrouping_frame [OF assms(2)]
    updateGrouping_fresh [OF _ _ assms(2)]
  by (simp add: toolbar_inv_def)

lemma distinct_insert_at:
  assumes "distinct xs" "x \<notin> set xs"
  shows "distinct (take n xs @ x # drop n xs)"
  using assms distinct_append [of "take n xs" "drop n xs"]
  by (auto dest: in_set_takeD in_set_dropD)

lemma set_insert_at: "set (take n xs @ x # drop n xs) = insert x (set xs)"
  using set_append [of "take n xs" "drop n xs"] by (simp del: set_append) auto

lemma take_insert_append:
  "i \<le> length u \<Longrightarrow> take i (u @ g) @ x # drop i (u @ g) = (take i u @ x # drop i u) @ g"
  by simp

lemma take_insert_append2:
  "length u < i \<Longrightarrow>
   take i (u @ g) @ x # drop i (u @ g) = u @ take (i - length u) g @ x # drop (i - length u) g"
  by simp

lemma items_add_toolbar_inv:
  assumes inv: "toolbar_inv s" and a: "items_add e x index s = Some s'"
  shows "toolbar_inv s'"
proof -
  define i where "i = (case index of None \<Rightarrow> length (items s) | Some i \<Rightarrow> i)"
  let ?u = "ungroupedItems s" and ?g = "groupedItems s"
  from inv have sg: "shouldGroupWhenFull s" and ul: "\<not> updateLock s" and gi: "grouping_inv s"
    and fr: "separator_fresh s" and part: "?u @ ?g = items s"
    by (simp_all add: toolbar_inv_def)
  from a obtain its where its: "collection_add x index (items s) = Some its"
    by (auto simp: items_add_def Option.bind_eq_Some_conv)
  then have xn: "x \<notin> set (items s)" and le: "i \<le> length (items s)"
    and its_eq: "its = take i (items s) @ x # drop i (items s)"
    by (auto simp: collection_add_def i_def split: if_splits option.splits)
  from xn part have xu: "x \<notin> set ?u" and xg: "x \<notin> set ?g"
    by (metis Un_iff set_append)+
  show ?thesis
  proof (cases "i > length ?u")
    case True
    with le part have ne: "?g \<noteq> []"
      by (metis append_Nil2 not_le)
    from True le part have le2: "i - length ?u \<le> length ?g"
      by (metis length_append le_diff_conv add.commute)
    from a its sg True xg le2 have s': "s' = s\<lparr>items := its,
        groupedItems := take (i - length ?u) ?g @ x # drop (i - length ?u) ?g\<rparr>"
      by (simp add: items_add_def Let_def collection_add_def i_def [symmetric])
    have d: "distinct (?u @ take (i - length ?u) ?g @ x # drop (i - length ?u) ?g)"
    proof -
      have "distinct (?u @ ?g)" using gi by (simp add: grouping_inv_def)
      with xu xg distinct_insert_at [of ?g x "i - length ?u"]
        set_insert_at [of "i - length ?u" ?g x]
      show ?thesis
        by (simp only: distinct_append) auto
    qed
    have "its = ?u @ take (i - length ?u) ?g @ x # drop (i - length ?u) ?g"
      unfolding its_eq part [symmetric] using True by (rule take_insert_append2)
    with gi sg ul fr ne d show ?thesis
      by (simp add: s' toolbar_inv_def grouping_inv_def)
  next
    case False
    then have le1: "i \<le> length ?u"
      by simp
    let ?u' = "take i ?u @ x # drop i ?u"
    have d: "distinct (?u' @ ?g)"
    proof -
      have "distinct (?u @ ?g)" using gi by (simp add: grouping_inv_def)
      with xu xg distinct_insert_at [of ?u x i] set_insert_at [of i ?u x]
      show ?thesis
        by (simp only: distinct_append) auto
    qed
    have du: "distinct ?u'"
      using gi xu by (intro distinct_insert_at) (simp_all add: grouping_inv_def)
    let ?s1 = "s\<lparr>items := its, ungroupedItems := ?u',
        focusCycleableItems := map Item ?u' @ (if ?g \<noteq> [] then [GroupedItemsDropdown] else [])\<rparr>"
    have "ungroupedItems_add x (Some i) (s\<lparr>items := its\<rparr>) = Some ?s1"
      using xu le1 du by (simp add: ungroupedItems_add_char collection_add_def)
    with a its sg False have u: "updateGrouping e ?s1 = Some s'"
      by (simp add: items_add_def Let_def i_def [symmetric])
    have "its = ?u' @ ?g"
      unfolding its_eq part [symmetric] using le1 by (rule take_insert_append)
    with gi sg ul fr d have "toolbar_inv ?s1"
      by (simp add: toolbar_inv_def grouping_inv_def)
    then show ?thesis
      using u by (rule updateGrouping_toolbar_inv)
  qed
qed

lemma items_remove_toolbar_inv:
  assumes inv: "toolbar_inv s" and a: "items_remove e x s = Some s'"
  shows "toolbar_inv s'"
proof -
  let ?u = "ungroupedItems s" and ?g = "groupedItems s"
  from inv have sg: "shouldGroupWhenFull s" and ul: "\<not> updateLock s" and gi: "grouping_inv s"
    and fr: "separator_fresh s" and part: "?u @ ?g = items s"
    by (simp_all add: toolbar_inv_def)
  from gi have d: "distinct (?u @ ?g)"
    by (simp add: grouping_inv_def)
  from a have xi: "x \<in> set (items s)"
    by (auto simp: items_remove_def collection_remove_def Option.bind_eq_Some_conv
        split: if_splits)
  let ?s = "s\<lparr>items := remove1 x (items s)\<rparr>"
  show ?thesis
  proof (cases "x \<in> set ?g")
    case True
    let ?s1 = "?s\<lparr>groupedItems := remove1 x ?g\<rparr>"
    from a xi sg True have u: "updateGrouping e ?s1 = Some s'"
      by (simp add: items_remove_def collection_remove_def Let_def)
    from d True have "x \<notin> set ?u"
      by auto
    then have "remove1 x (items s) = ?u @ remove1 x ?g"
      unfolding part [symmetric] by (simp add: remove1_append)
    moreover from True have "?g \<noteq> []"
      by auto
    ultimately have "toolbar_inv ?s1"
      using gi sg ul fr d by (auto simp: toolbar_inv_def grouping_inv_def)
    then show ?thesis
      using u by (rule updateGrouping_toolbar_inv)
  next
    case False
    with xi part have xu: "x \<in> set ?u"
      by (metis Un_iff set_append)
    let ?s1 = "?s\<lparr>ungroupedItems := remove1 x ?u,
        focusCycleableItems := map Item (remove1 x ?u)
          @ (if ?g \<noteq> [] then [GroupedItemsDropdown] else [])\<rparr>"
    from d have "distinct (remove1 x ?u)"
      by simp
    with xu have "ungroupedItems_remove x ?s = Some ?s1"
      by (simp add: ungroupedItems_remove_char)
    with a xi sg False xu have u: "updateGrouping e ?s1 = Some s'"
      by (simp add: items_remove_def collection_remove_def Let_def)
    have "remove1 x (items s) = remove1 x ?u @ ?g"
      unfolding part [symmetric] using xu by (simp add: remove1_append)
    then have "toolbar_inv ?s1"
      using gi sg ul fr d by (auto simp: toolbar_inv_def grouping_inv_def)
    then show ?thesis
      using u by (rule updateGrouping_toolbar_inv)
  qed
qed

lemma fillFromConfig_map_toolbar_inv:
  "toolbar_inv s \<Longrightarrow> fillFromConfig_map e names s = Some s' \<Longrightarrow> toolbar_inv s'"
proof (induction names arbitrary: s)
  case Nil
  then show ?case by simp
next
  case (Cons name names)
  from Cons.prems(2) obtain s1 where
    s1: "(if name = ''|''
            then items_add e (ToolbarSeparatorView (nextViewId s)) (Some 0)
                   (s\<lparr>nextViewId := Suc (nextViewId s)\<rparr>)
            else if factoryHas e name
            then items_add e (ComponentView name (nextViewId s)) (Some 0)
                   (s\<lparr>nextViewId := Suc (nextViewId s)\<rparr>)
            else Some (s\<lparr>warnings := warnings s @ [name]\<rparr>)) = Some s1"
    and rest: "fillFromConfig_map e names s1 = Some s'"
    by (auto simp: Option.bind_eq_Some_conv)
  have "toolbar_inv (s\<lparr>nextViewId := Suc (nextViewId s)\<rparr>)"
    "toolbar_inv (s\<lparr>warnings := warnings s @ [name]\<rparr>)"
    using Cons.prems(1) by (simp_all add: toolbar_inv_def separator_fresh_next)
  with s1 have "toolbar_inv s1"
    by (auto split: if_splits intro: items_add_toolbar_inv)
  then show ?case
    using rest by (rule Cons.IH)
qed

lemma reachable_toolbar_inv: "reachable s \<Longrightarrow> toolbar_inv s"
proof (induction rule: reachable.induct)
  case new
  show ?case
    by (simp add: toolbar_inv_def grouping_inv_def separator_fresh_def ToolbarView_def)
next
  case (add s e x index s')
  then show ?case by (blast intro: items_add_toolbar_inv)
next
  case (remove s e x s')
  then show ?case by (blast intro: items_remove_toolbar_inv)
next
  case (fill s e config config' s')
  then show ?case
    by (auto simp: fillFromConfig_def intro: fillFromConfig_map_toolbar_inv)
next
  case (update s e s')
  then show ?case by (blast intro: updateGrouping_toolbar_inv)
next
  case (enable s e s')
  from enable.IH have "toolbar_inv (s\<lparr>previousWidth := None\<rparr>)"
    by (simp add: toolbar_inv_def)
  with enable.hyps(2) show ?case
    unfolding enableGroupingOnResize_def by (rule updateGrouping_toolbar_inv [rotated])
next
  case (resize s e width s')
  show ?case
  proof (cases "falsy (previousWidth s) \<or> previousWidth s \<noteq> Some width")
    case False
    with resize show ?thesis
      by (simp add: resizeCallback_def)
  next
    case True
    with resize.hyps(2) obtain t where t: "updateGrouping e s = Some t"
      and s': "s' = t\<lparr>previousWidth := Some width\<rparr>"
      by (auto simp: resizeCallback_def Option.bind_eq_Some_conv)
    from updateGrouping_toolbar_inv [OF resize.IH t] show ?thesis
      by (simp add: s' toolbar_inv_def)
  qed
next
  case (group s s')
  then have gi: "grouping_inv s" and fr: "separator_fresh s"
    by (simp_all add: toolbar_inv_def)
  from groupLastItem_inv [OF gi group.hyps(2)] groupLastItem_fresh [OF gi fr group.hyps(2)]
    group.IH
  show ?case
    by (simp add: toolbar_inv_def untouched_def)
next
  case (ungroup s s')
  then have gi: "grouping_inv s" and fr: "separator_fresh s"
    by (simp_all add: toolbar_inv_def)
  from ungroupFirstItem_inv [OF gi ungroup.hyps(2)]
    ungroupFirstItem_fresh [OF gi fr ungroup.hyps(2)] ungroup.IH
  show ?case
    by (simp add: toolbar_inv_def untouched_def)
qed


section \<open>A toolbar in a browser\<close>

text \<open>
  A layout for concrete runs: every ungrouped item is 10 wide, the toolbar is \<open>width\<close>
  wide, there is no padding, and the factory knows \<open>bold\<close> and \<open>italic\<close>. The states
  below are the ones a toolbar 15 wide goes through when two items are added and the
  second is removed again.
\<close>

definition exampleLayout :: "real \<Rightarrow> node list \<Rightarrow> geometry" where
  "exampleLayout width d =
     \<lparr>lastChildRect = \<lparr>left = 0,
        right = (case d of ItemsNode xs # _ \<Rightarrow> 10 * real (length xs) | _ \<Rightarrow> 0)\<rparr>,
      toolbarRect = \<lparr>left = 0, right = width\<rparr>\<rparr>"

definition exampleEnv :: "real \<Rightarrow> env" where
  "exampleEnv width =
     \<lparr>bodyContainsElement = True, uiLanguageDirection = LTR, layout = exampleLayout width,
      paddingRight = Num 0, paddingLeft = Num 0,
      factoryHas = (\<lambda>name. name = ''bold'' \<or> name = ''italic'')\<rparr>"

definition itemA :: item where
  "itemA = ComponentView ''a'' 100"

definition itemB :: item where
  "itemB = ComponentView ''b'' 101"

definition oneItem :: toolbar where
  "oneItem =
     \<lparr>shouldGroupWhenFull = True, items = [itemA], ungroupedItems = [itemA],
      groupedItems = [], components = [ItemsView], focusCycleableItems = [Item itemA],
      updateLock = False, cachedPadding = Some (Num 0), previousWidth = None,
      nextViewId = 0, warnings = [], updateGroupingCalls = 1,
      moves = []\<rparr>"

definition oneGrouped :: toolbar where
  "oneGrouped =
     \<lparr>shouldGroupWhenFull = True, items = [itemA, itemB], ungroupedItems = [itemA],
      groupedItems = [itemB],
      components = [ItemsView, Item (ToolbarSeparatorView 0), GroupedItemsDropdown],
      focusCycleableItems = [Item itemA],
      updateLock = False, cachedPadding = Some (Num 0), previousWidth = None,
      nextViewId = 1, warnings = [], updateGroupingCalls = 2,
      moves = [Grouped itemB]\<rparr>"

definition emptyDropdown :: toolbar where
  "emptyDropdown =
     \<lparr>shouldGroupWhenFull = True, items = [itemA], ungroupedItems = [itemA],
      groupedItems = [],
      components = [ItemsView, Item (ToolbarSeparatorView 0), GroupedItemsDropdown],
      focusCycleableItems = [Item itemA],
      updateLock = False, cachedPadding = Some (Num 0), previousWidth = None,
      nextViewId = 1, warnings = [], updateGroupingCalls = 3,
      moves = [Grouped itemB]\<rparr>"

lemmas measure_defs =
  areItemsOverflowing_def exampleEnv_def exampleLayout_def domTree_def renderView_def
  renderItem_def truthy_def jsGreater_def jsMinus_def Let_def

lemma add_a: "items_add (exampleEnv 15) itemA None (ToolbarView True) = Some oneItem"
  by (simp add: items_add_def ToolbarView_def ungroupedItems_add_char
   collection_add_def updateGrouping_def groupWhileOverflowing.simps
   measure_defs oneItem_def itemA_def)

lemma add_b: "items_add (exampleEnv 15) itemB None oneItem = Some oneGrouped"
  by (simp add: items_add_def ungroupedItems_add_char
   collection_add_def updateGrouping_def groupWhileOverflowing.simps
   groupLastItem_def components_add_char ungroupedItems_remove_char collection_last_def
   focusables_def
   measure_defs oneItem_def oneGrouped_def itemA_def itemB_def)

lemma remove_b: "items_remove (exampleEnv 15) itemB oneGrouped = Some emptyDropdown"
  by (simp add: items_remove_def collection_remove_def updateGrouping_def
   groupWhileOverflowing.simps measure_defs oneGrouped_def emptyDropdown_def itemA_def itemB_def)

lemma narrow_throws: "updateGrouping (exampleEnv 5) emptyDropdown = None"
  by (simp add: updateGrouping_def groupWhileOverflowing.simps
   groupLastItem_def components_add_char focusables_def
   measure_defs emptyDropdown_def itemA_def)

lemma reachable_oneItem: "reachable oneItem"
  using reachable.add [OF reachable.new add_a] .

lemma reachable_oneGrouped: "reachable oneGrouped"
  using reachable.add [OF reachable_oneItem add_b] .

lemma reachable_emptyDropdown: "reachable emptyDropdown"
  using reachable.remove [OF reachable_oneGrouped remove_b] .

definition allUngrouped :: toolbar where
  "allUngrouped =
     \<lparr>shouldGroupWhenFull = True, items = [itemA, itemB], ungroupedItems = [itemA, itemB],
      groupedItems = [], components = [ItemsView],
      focusCycleableItems = [Item itemA, Item itemB],
      updateLock = False, cachedPadding = Some (Num 0), previousWidth = None,
      nextViewId = 1, warnings = [], updateGroupingCalls = 3,
      moves = [Grouped itemB, Ungrouped itemB]\<rparr>"

lemma widen: "updateGrouping (exampleEnv 100) oneGrouped = Some allUngrouped"
  by (simp add: updateGrouping_def groupWhileOverflowing.simps ungroupWhileFitting.simps
   ungroupFirstItem_def ungroupedItems_add_char components_remove_char
   collection_first_def collection_last_def collection_remove_def collection_add_end
   focusables_def measure_defs oneGrouped_def allUngrouped_def itemA_def itemB_def)

definition regrouped :: toolbar where
  "regrouped =
     \<lparr>shouldGroupWhenFull = True, items = [itemA, itemB], ungroupedItems = [itemA],
      groupedItems = [itemB],
      components = [ItemsView, Item (ToolbarSeparatorView 1), GroupedItemsDropdown],
      focusCycleableItems = [Item itemA],
      updateLock = False, cachedPadding = Some (Num 0), previousWidth = None,
      nextViewId = 2, warnings = [], updateGroupingCalls = 4,
      moves = [Grouped itemB, Ungrouped itemB, Grouped itemB]\<rparr>"

lemma narrow: "updateGrouping (exampleEnv 15) allUngrouped = Some regrouped"
  by (simp add: regrouped_def updateGrouping_def groupWhileOverflowing.simps
   groupLastItem_def components_add_char ungroupedItems_remove_char collection_last_def
   collection_add_front focusables_def measure_defs oneGrouped_def allUngrouped_def itemA_def itemB_def)

text \<open>
  A third item, grouped at once because it is added behind a grouped one; and the toolbar
  made 25 wide, which has room for two items.
\<close>

definition itemC :: item where
  "itemC = ComponentView ''c'' 102"

definition twoGrouped :: toolbar where
  "twoGrouped =
     \<lparr>shouldGroupWhenFull = True, items = [itemA, itemB, itemC], ungroupedItems = [itemA],
      groupedItems = [itemB, itemC],
      components = [ItemsView, Item (ToolbarSeparatorView 0), GroupedItemsDropdown],
      focusCycleableItems = [Item itemA],
      updateLock = False, cachedPadding = Some (Num 0), previousWidth = None,
      nextViewId = 1, warnings = [], updateGroupingCalls = 2,
      moves = [Grouped itemB]\<rparr>"

definition undone :: toolbar where
  "undone =
     \<lparr>shouldGroupWhenFull = True, items = [itemA, itemB, itemC],
      ungroupedItems = [itemA, itemB], groupedItems = [itemC],
      components = [ItemsView, Item (ToolbarSeparatorView 1), GroupedItemsDropdown],
      focusCycleableItems = [Item itemA, Item itemB],
      updateLock = False, cachedPadding = Some (Num 0), previousWidth = None,
      nextViewId = 2, warnings = [], updateGroupingCalls = 3,
      moves = [Grouped itemB, Ungrouped itemB, Ungrouped itemC, Grouped itemC]\<rparr>"

lemma add_c: "items_add (exampleEnv 15) itemC None oneGrouped = Some twoGrouped"
  by (simp add: items_add_def collection_add_def oneGrouped_def twoGrouped_def
   itemA_def itemB_def itemC_def)

lemma reachable_twoGrouped: "reachable twoGrouped"
  using reachable.add [OF reachable_oneGrouped add_c] .

lemma widen_a_little: "updateGrouping (exampleEnv 25) twoGrouped = Some undone"
  by (simp add: updateGrouping_def groupWhileOverflowing.simps ungroupWhileFitting.simps
   ungroupFirstItem_def ungroupedItems_add_char components_remove_char
   collection_first_def collection_last_def collection_remove_def collection_add_end
   groupLastItem_def components_add_char ungroupedItems_remove_char collection_add_front
   focusables_def measure_defs twoGrouped_def undone_def itemA_def itemB_def itemC_def)

section \<open>updateGrouping\<close>

text \<open>
  C1. For a toolbar created with \<^verbatim>\<open>shouldGroupWhenFull\<close>, with its element in the document
  and no update in progress: when \<^verbatim>\<open>updateGrouping\<close> returns, \<^verbatim>\<open>areItemsOverflowing\<close> is
  false; the items are the same as before, split at some position into the ungrouped
  ones and the grouped ones; and when something is grouped the dropdown is among the
  components.
\<close>

theorem updateGrouping_ends_without_overflow:
  assumes "reachable s" "bodyContainsElement e" "\<not> updateLock s"
    "updateGrouping e s = Some s'"
  shows "\<not> fst (areItemsOverflowing e s')
    \<and> (\<exists>m. ungroupedItems s' = take m (items s) \<and> groupedItems s' = drop m (items s))
    \<and> items s' = items s
    \<and> (groupedItems s' \<noteq> [] \<longrightarrow> GroupedItemsDropdown \<in> set (components s'))"
proof -
  from reachable_toolbar_inv [OF assms(1)] have gi: "grouping_inv s"
    and part: "ungroupedItems s @ groupedItems s = items s"
    by (simp_all add: toolbar_inv_def)
  from updateGrouping_result [OF gi assms(2,3,4)] obtain m where
    r: "grouping_inv s'" "\<not> overflows e s'"
    "ungroupedItems s' = take m (ungroupedItems s @ groupedItems s)"
    "groupedItems s' = drop m (ungroupedItems s @ groupedItems s)"
    by blast
  from r(3,4) have "\<exists>m. ungroupedItems s' = take m (items s) \<and> groupedItems s' = drop m (items s)"
    unfolding part by blast
  with r(1,2) updateGrouping_frame(1) [OF assms(4)] show ?thesis
    by (simp add: overflows_def grouping_inv_def)
qed

theorem updateGrouping_ends_without_overflow_witness:
  "reachable allUngrouped \<and> bodyContainsElement (exampleEnv 15) \<and> \<not> updateLock allUngrouped
   \<and> updateGrouping (exampleEnv 15) allUngrouped = Some regrouped
   \<and> fst (areItemsOverflowing (exampleEnv 15) allUngrouped)
   \<and> \<not> fst (areItemsOverflowing (exampleEnv 15) regrouped)"
proof -
  have r: "reachable allUngrouped"
    using reachable.update [OF reachable_oneGrouped widen] .
  have b: "bodyContainsElement (exampleEnv 15)"
    by (simp add: exampleEnv_def)
  have l: "\<not> updateLock allUngrouped"
    by (simp add: allUngrouped_def)
  have o: "fst (areItemsOverflowing (exampleEnv 15) allUngrouped)"
    by (simp add: measure_defs allUngrouped_def)
  from updateGrouping_ends_without_overflow [OF r b l narrow] r b l o narrow show ?thesis
    by blast
qed


text \<open>
  C3. A call of \<^verbatim>\<open>updateGrouping\<close> made while \<^verbatim>\<open>_updateLock\<close> is set, or while the element
  is not inside the document body, returns at once: \<open>ungroupedItems\<close>, \<open>groupedItems\<close>
  and \<^verbatim>\<open>_components\<close> are what they were, and so is the rest of the state apart from the
  count of calls.
\<close>

theorem updateGrouping_returns_at_guards:
  assumes "updateLock s \<or> \<not> bodyContainsElement e"
  shows "\<exists>s'. updateGrouping e s = Some s'
    \<and> ungroupedItems s' = ungroupedItems s \<and> groupedItems s' = groupedItems s
    \<and> components s' = components s
    \<and> s' = s\<lparr>updateGroupingCalls := Suc (updateGroupingCalls s)\<rparr>"
  using updateGrouping_skips [OF assms] by simp

theorem updateGrouping_returns_at_guards_witness:
  "updateLock (allUngrouped\<lparr>updateLock := True\<rparr>)
   \<and> updateGrouping (exampleEnv 15) (allUngrouped\<lparr>updateLock := True\<rparr>)
       = Some (allUngrouped\<lparr>updateLock := True, updateGroupingCalls := 4\<rparr>)
   \<and> \<not> bodyContainsElement ((exampleEnv 15)\<lparr>bodyContainsElement := False\<rparr>)
   \<and> updateGrouping ((exampleEnv 15)\<lparr>bodyContainsElement := False\<rparr>) allUngrouped
       = Some (allUngrouped\<lparr>updateGroupingCalls := 4\<rparr>)"
proof -
  have l: "updateLock (allUngrouped\<lparr>updateLock := True\<rparr>)
      \<or> \<not> bodyContainsElement (exampleEnv 15)"
    by simp
  have d: "updateLock allUngrouped
      \<or> \<not> bodyContainsElement ((exampleEnv 15)\<lparr>bodyContainsElement := False\<rparr>)"
    by simp
  have c: "Suc (updateGroupingCalls allUngrouped) = 4"
    by (simp add: allUngrouped_def)
  from updateGrouping_returns_at_guards [OF l] updateGrouping_returns_at_guards [OF d] c
  show ?thesis
    by auto
qed

text \<open>
  C4. In a call of \<^verbatim>\<open>updateGrouping\<close> that passes both guards: when something overflows at
  entry the call makes grouping moves only, one for each of the last ungrouped items,
  the last one first, so the ungrouping phase does not run; when nothing overflows at
  entry the call makes no grouping move before it ungroups, it ungroups the first
  grouped items in order (none when nothing is grouped), and unless all of them stay
  ungrouped it then groups exactly one item back, the one it ungrouped last, after which
  ungrouping one more would overflow; in both cases nothing overflows at the end.
\<close>

theorem updateGrouping_phases:
  assumes "reachable s" "bodyContainsElement e" "\<not> updateLock s"
    "updateGrouping e s = Some s'"
  shows "(fst (areItemsOverflowing e s) \<longrightarrow>
            (\<exists>k < length (ungroupedItems s).
               ungroupedItems s' = take k (ungroupedItems s)
               \<and> groupedItems s' = drop k (ungroupedItems s) @ groupedItems s
               \<and> moves s' = moves s @ map Grouped (rev (drop k (ungroupedItems s)))))
    \<and> (\<not> fst (areItemsOverflowing e s) \<longrightarrow>
            (\<exists>k \<le> length (groupedItems s).
               ungroupedItems s' = ungroupedItems s @ take k (groupedItems s)
               \<and> groupedItems s' = drop k (groupedItems s)
               \<and> (if k < length (groupedItems s)
                   then moves s' = moves s @ map Ungrouped (take (Suc k) (groupedItems s))
                          @ [Grouped (groupedItems s ! k)]
                     \<and> (\<exists>t. ungroupFirstItem s' = Some t \<and> fst (areItemsOverflowing e t))
                   else moves s' = moves s @ map Ungrouped (groupedItems s))))
    \<and> \<not> fst (areItemsOverflowing e s')"
proof -
  let ?u = "ungroupedItems s" and ?g = "groupedItems s"
  from reachable_toolbar_inv [OF assms(1)] have gi: "grouping_inv s"
    by (simp add: toolbar_inv_def)
  from updateGrouping_result [OF gi assms(2,3,4)] obtain m where
    no: "\<not> overflows e s'" and m: "m \<le> length (?u @ ?g)"
    "if overflows e s then m < length ?u else length ?u \<le> m"
    "ungroupedItems s' = take m (?u @ ?g)" "groupedItems s' = drop m (?u @ ?g)"
    "\<not> overflows e s \<and> m < length (?u @ ?g)
       \<longrightarrow> (\<exists>t. ungroupFirstItem s' = Some t \<and> overflows e t)"
    by blast
  note mv = updateGrouping_moves [OF gi assms(2,3,4)]
  have grouping: "\<exists>k < length ?u. ungroupedItems s' = take k ?u
      \<and> groupedItems s' = drop k ?u @ ?g
      \<and> moves s' = moves s @ map Grouped (rev (drop k ?u))" if ov: "overflows e s"
  proof -
    from ov m(2) have lt: "m < length ?u"
      by simp
    with m(3) have u': "ungroupedItems s' = take m ?u"
      by simp
    with lt have "length (ungroupedItems s') = m"
      by simp
    with mv ov have "moves s' = moves s @ map Grouped (rev (drop m ?u))"
      by simp
    with lt u' m(4) show ?thesis
      by (intro exI [of _ m]) simp
  qed
  have ungrouping: "\<exists>k \<le> length ?g. ungroupedItems s' = ?u @ take k ?g
      \<and> groupedItems s' = drop k ?g
      \<and> (if k < length ?g
          then moves s' = moves s @ map Ungrouped (take (Suc k) ?g) @ [Grouped (?g ! k)]
            \<and> (\<exists>t. ungroupFirstItem s' = Some t \<and> overflows e t)
          else moves s' = moves s @ map Ungrouped ?g)"
    if nov: "\<not> overflows e s"
  proof -
    define k where "k = m - length ?u"
    from nov m(1,2) have k: "k \<le> length ?g" and mk: "m = length ?u + k"
      by (simp_all add: k_def)
    from m(3,4) mk have u': "ungroupedItems s' = ?u @ take k ?g"
      and g': "groupedItems s' = drop k ?g"
      by simp_all
    from mv nov obtain j where j: "j \<le> length ?g"
      and cases: "(groupedItems s' = [] \<and> ungroupedItems s' = ?u @ ?g
            \<and> moves s' = moves s @ map Ungrouped ?g)
        \<or> (0 < j \<and> ungroupedItems s' = ?u @ take (j - 1) ?g
            \<and> moves s' = moves s @ map Ungrouped (take j ?g) @ [Grouped (?g ! (j - 1))])"
      by auto
    from cases have "if k < length ?g
          then moves s' = moves s @ map Ungrouped (take (Suc k) ?g) @ [Grouped (?g ! k)]
            \<and> (\<exists>t. ungroupFirstItem s' = Some t \<and> overflows e t)
          else moves s' = moves s @ map Ungrouped ?g"
    proof
      assume a: "groupedItems s' = [] \<and> ungroupedItems s' = ?u @ ?g
            \<and> moves s' = moves s @ map Ungrouped ?g"
      with g' k have "k = length ?g"
        by simp
      with a show ?thesis
        by simp
    next
      assume b: "0 < j \<and> ungroupedItems s' = ?u @ take (j - 1) ?g
            \<and> moves s' = moves s @ map Ungrouped (take j ?g) @ [Grouped (?g ! (j - 1))]"
      with u' have "take k ?g = take (j - 1) ?g"
        by simp
      then have "length (take k ?g) = length (take (j - 1) ?g)"
        by simp
      with k j b have kj: "j = Suc k"
        by simp
      with j have lt: "k < length ?g"
        by simp
      with m(5) nov mk have "\<exists>t. ungroupFirstItem s' = Some t \<and> overflows e t"
        by simp
      with b kj lt show ?thesis
        by simp
    qed
    with k u' g' show ?thesis
      by blast
  qed
  from grouping ungrouping no show ?thesis
    unfolding overflows_def by blast
qed

theorem updateGrouping_phases_witness:
  "reachable allUngrouped \<and> bodyContainsElement (exampleEnv 15) \<and> \<not> updateLock allUngrouped
   \<and> updateGrouping (exampleEnv 15) allUngrouped = Some regrouped
   \<and> fst (areItemsOverflowing (exampleEnv 15) allUngrouped)
   \<and> moves regrouped = moves allUngrouped @ [Grouped itemB]
   \<and> reachable oneGrouped \<and> bodyContainsElement (exampleEnv 100) \<and> \<not> updateLock oneGrouped
   \<and> updateGrouping (exampleEnv 100) oneGrouped = Some allUngrouped
   \<and> \<not> fst (areItemsOverflowing (exampleEnv 100) oneGrouped)
   \<and> moves allUngrouped = moves oneGrouped @ [Ungrouped itemB]
   \<and> reachable twoGrouped \<and> bodyContainsElement (exampleEnv 25) \<and> \<not> updateLock twoGrouped
   \<and> updateGrouping (exampleEnv 25) twoGrouped = Some undone
   \<and> \<not> fst (areItemsOverflowing (exampleEnv 25) twoGrouped)
   \<and> moves undone = moves twoGrouped @ [Ungrouped itemB, Ungrouped itemC, Grouped itemC]
   \<and> \<not> fst (areItemsOverflowing (exampleEnv 25) undone)"
proof -
  have r: "reachable allUngrouped"
    using reachable.update [OF reachable_oneGrouped widen] .
  have b: "bodyContainsElement (exampleEnv 15)" "bodyContainsElement (exampleEnv 100)"
    "bodyContainsElement (exampleEnv 25)"
    by (simp_all add: exampleEnv_def)
  have l: "\<not> updateLock allUngrouped" "\<not> updateLock oneGrouped" "\<not> updateLock twoGrouped"
    by (simp_all add: allUngrouped_def oneGrouped_def twoGrouped_def)
  have o: "fst (areItemsOverflowing (exampleEnv 15) allUngrouped)"
    "\<not> fst (areItemsOverflowing (exampleEnv 100) oneGrouped)"
    "\<not> fst (areItemsOverflowing (exampleEnv 25) twoGrouped)"
    by (simp_all add: measure_defs allUngrouped_def oneGrouped_def twoGrouped_def)
  have mv: "moves regrouped = moves allUngrouped @ [Grouped itemB]"
    "moves allUngrouped = moves oneGrouped @ [Ungrouped itemB]"
    "moves undone = moves twoGrouped @ [Ungrouped itemB, Ungrouped itemC, Grouped itemC]"
    by (simp_all add: regrouped_def allUngrouped_def oneGrouped_def twoGrouped_def undone_def)
  from updateGrouping_phases [OF r b(1) l(1) narrow]
    updateGrouping_phases [OF reachable_oneGrouped b(2) l(2) widen]
    updateGrouping_phases [OF reachable_twoGrouped b(3) l(3) widen_a_little]
    r reachable_oneGrouped reachable_twoGrouped b l o mv narrow widen widen_a_little
  show ?thesis
    by blast
qed

definition ungroupedAgain :: toolbar where
  "ungroupedAgain =
     \<lparr>shouldGroupWhenFull = True, items = [itemA, itemB], ungroupedItems = [itemA, itemB],
      groupedItems = [], components = [ItemsView],
      focusCycleableItems = [Item itemA, Item itemB],
      updateLock = False, cachedPadding = Some (Num 0), previousWidth = None,
      nextViewId = 1, warnings = [], updateGroupingCalls = 2,
      moves = [Grouped itemB, Ungrouped itemB]\<rparr>"

definition groupedAgain :: toolbar where
  "groupedAgain =
     \<lparr>shouldGroupWhenFull = True, items = [itemA, itemB], ungroupedItems = [itemA],
      groupedItems = [itemB],
      components = [ItemsView, Item (ToolbarSeparatorView 1), GroupedItemsDropdown],
      focusCycleableItems = [Item itemA],
      updateLock = False, cachedPadding = Some (Num 0), previousWidth = None,
      nextViewId = 2, warnings = [], updateGroupingCalls = 2,
      moves = [Grouped itemB, Ungrouped itemB, Grouped itemB]\<rparr>"

lemma ungroup_oneGrouped: "ungroupFirstItem oneGrouped = Some ungroupedAgain"
  by (simp add: ungroupFirstItem_def ungroupedItems_add_char components_remove_char
   collection_first_def collection_last_def collection_remove_def collection_add_end
   focusables_def oneGrouped_def ungroupedAgain_def itemA_def itemB_def)

lemma group_ungroupedAgain: "groupLastItem ungroupedAgain = Some groupedAgain"
  by (simp add: groupLastItem_def components_add_char ungroupedItems_remove_char
   collection_last_def collection_add_front focusables_def
   ungroupedAgain_def groupedAgain_def itemA_def itemB_def)

section \<open>The dropdown and the separator\<close>

text \<open>
  C5. Not every reachable state has the dropdown in \<^verbatim>\<open>_components\<close> exactly when
  something is grouped: removing the only grouped item from \<open>items\<close> empties
  \<open>groupedItems\<close> and leaves the separator and the dropdown in place, because the
  listener of \<^verbatim>\<open>remove\<close> does not do what \<^verbatim>\<open>ungroupFirstItem\<close> does. The next call that
  has to group then throws, since \<^verbatim>\<open>groupLastItem\<close> adds the dropdown a second time.
\<close>

theorem dropdown_left_without_grouped_items:
  "reachable oneGrouped
   \<and> items_remove (exampleEnv 15) itemB oneGrouped = Some emptyDropdown
   \<and> reachable emptyDropdown
   \<and> groupedItems emptyDropdown = []
   \<and> components emptyDropdown
       = [ItemsView, Item (ToolbarSeparatorView 0), GroupedItemsDropdown]
   \<and> updateGrouping (exampleEnv 5) emptyDropdown = None"
  using reachable_oneGrouped remove_b reachable_emptyDropdown narrow_throws
  by (simp add: emptyDropdown_def)

text \<open>
  C6, as stated, fails when exactly one item is grouped: \<^verbatim>\<open>ungroupFirstItem\<close> removes the
  separator, and \<^verbatim>\<open>groupLastItem\<close> puts a new one in its place, so \<^verbatim>\<open>_components\<close> does not
  hold the same objects as before.
\<close>

theorem ungroup_then_group_new_separator:
  "reachable oneGrouped \<and> groupedItems oneGrouped \<noteq> []
   \<and> ungroupFirstItem oneGrouped = Some ungroupedAgain
   \<and> groupLastItem ungroupedAgain = Some groupedAgain
   \<and> components oneGrouped = [ItemsView, Item (ToolbarSeparatorView 0), GroupedItemsDropdown]
   \<and> components groupedAgain = [ItemsView, Item (ToolbarSeparatorView 1), GroupedItemsDropdown]
   \<and> components groupedAgain \<noteq> components oneGrouped"
  using reachable_oneGrouped ungroup_oneGrouped group_ungroupedAgain
  by (simp add: oneGrouped_def groupedAgain_def)

text \<open>
  C6, amended. In every reachable state in which something is grouped,
  \<^verbatim>\<open>ungroupFirstItem\<close> followed by \<^verbatim>\<open>groupLastItem\<close> succeeds and restores
  \<open>ungroupedItems\<close> and \<open>groupedItems\<close>; \<^verbatim>\<open>_components\<close> is untouched when more than one
  item was grouped, and is again the items view, a separator and the dropdown when
  exactly one was, the separator being the one just created and not the one that was
  there before, so that \<^verbatim>\<open>_components\<close> is then not what it was.
\<close>

theorem ungroup_then_group_restores:
  assumes "reachable s" "groupedItems s \<noteq> []"
  shows "\<exists>s1 s2. ungroupFirstItem s = Some s1 \<and> groupLastItem s1 = Some s2
    \<and> ungroupedItems s2 = ungroupedItems s \<and> groupedItems s2 = groupedItems s
    \<and> (if length (groupedItems s) = 1
        then (\<exists>k. k \<noteq> nextViewId s
                \<and> components s
                    = [ItemsView, Item (ToolbarSeparatorView k), GroupedItemsDropdown])
          \<and> components s2
              = [ItemsView, Item (ToolbarSeparatorView (nextViewId s)), GroupedItemsDropdown]
          \<and> components s2 \<noteq> components s
        else components s2 = components s)"
proof -
  from reachable_toolbar_inv [OF assms(1)] have gi: "grouping_inv s"
    and fr: "separator_fresh s"
    by (simp_all add: toolbar_inv_def)
  from assms(2) obtain x g where xg: "groupedItems s = x # g"
    by (cases "groupedItems s") auto
  from gi xg have d: "distinct (ungroupedItems s @ [x])"
    by (auto simp: grouping_inv_def)
  from gi xg obtain k where
    c: "components s = [ItemsView, Item (ToolbarSeparatorView k), GroupedItemsDropdown]"
    by (auto simp: grouping_inv_def)
  from fr c have old: "k \<noteq> nextViewId s"
    by (auto simp: separator_fresh_def)
  have "\<exists>s1. ungroupFirstItem s = Some s1"
  proof (cases "g = []")
    case True
    with xg have "groupedItems s = [x]" by simp
    from ungroupFirstItem_last [OF this d c] show ?thesis by blast
  next
    case False
    from ungroupFirstItem_more [OF xg False d] show ?thesis by blast
  qed
  then obtain s1 where s1: "ungroupFirstItem s = Some s1"
    by blast
  from ungroup_then_group [OF gi s1, of "cachedPadding s1"] obtain s2 where
    s2: "groupLastItem s1 = Some s2" "ungroupedItems s2 = ungroupedItems s"
    "groupedItems s2 = groupedItems s"
    and cs: "components s2 = components s
        \<or> (length (groupedItems s) = 1
           \<and> components s2
               = [ItemsView, Item (ToolbarSeparatorView (nextViewId s)), GroupedItemsDropdown])"
    by auto
  have "components s2 = components s" if "length (groupedItems s) \<noteq> 1"
    using cs that by blast
  moreover have "components s2
      = [ItemsView, Item (ToolbarSeparatorView (nextViewId s)), GroupedItemsDropdown]"
    if one: "length (groupedItems s) = 1"
  proof -
    from one xg have g: "groupedItems s = [x]" by simp
    from s1 ungroupFirstItem_last [OF g d c] have
      "s1 = s\<lparr>components := [ItemsView],
        focusCycleableItems := map Item (ungroupedItems s @ [x]),
        ungroupedItems := ungroupedItems s @ [x], groupedItems := [],
        moves := moves s @ [Ungrouped x]\<rparr>"
      by simp
    moreover from this have "groupLastItem s1 = Some (s1\<lparr>
        nextViewId := Suc (nextViewId s1),
        components := [ItemsView, Item (ToolbarSeparatorView (nextViewId s1)), GroupedItemsDropdown],
        focusCycleableItems := map Item (ungroupedItems s),
        ungroupedItems := ungroupedItems s,
        groupedItems := [x],
        moves := moves s1 @ [Grouped x]\<rparr>)"
      using d by (intro groupLastItem_first) simp_all
    ultimately show ?thesis
      using s2(1) by auto
  qed
  ultimately show ?thesis
    using s1 s2 c old by auto
qed

theorem ungroup_then_group_restores_witness:
  "reachable oneGrouped \<and> groupedItems oneGrouped \<noteq> []
   \<and> ungroupFirstItem oneGrouped = Some ungroupedAgain
   \<and> groupLastItem ungroupedAgain = Some groupedAgain
   \<and> ungroupedItems groupedAgain = ungroupedItems oneGrouped
   \<and> groupedItems groupedAgain = groupedItems oneGrouped
   \<and> components groupedAgain
       = [ItemsView, Item (ToolbarSeparatorView (nextViewId oneGrouped)), GroupedItemsDropdown]
   \<and> components groupedAgain \<noteq> components oneGrouped"
proof -
  have ne: "groupedItems oneGrouped \<noteq> []" and one: "length (groupedItems oneGrouped) = 1"
    by (simp_all add: oneGrouped_def)
  from ungroup_then_group_restores [OF reachable_oneGrouped ne] one
    ungroup_oneGrouped group_ungroupedAgain reachable_oneGrouped ne
  show ?thesis
    by auto
qed

section \<open>Focus cycling\<close>

text \<open>
  C7. After an addition to or a removal from \<open>ungroupedItems\<close> or \<^verbatim>\<open>_components\<close>, once the
  listener has run, \<^verbatim>\<open>_focusCycleableItems\<close> is the ungrouped items in order, followed by
  the dropdown exactly when \<open>groupedItems\<close> is not empty.
\<close>

theorem focusCycleableItems_after_event:
  "(ungroupedItems_add x index s = Some s' \<longrightarrow>
      focusCycleableItems s' = map Item (ungroupedItems s')
        @ (if groupedItems s' \<noteq> [] then [GroupedItemsDropdown] else []))
   \<and> (ungroupedItems_remove x s = Some s' \<longrightarrow>
      focusCycleableItems s' = map Item (ungroupedItems s')
        @ (if groupedItems s' \<noteq> [] then [GroupedItemsDropdown] else []))
   \<and> (components_add v s = Some s' \<longrightarrow>
      focusCycleableItems s' = map Item (ungroupedItems s')
        @ (if groupedItems s' \<noteq> [] then [GroupedItemsDropdown] else []))
   \<and> (components_remove v s = Some s' \<longrightarrow>
      focusCycleableItems s' = map Item (ungroupedItems s')
        @ (if groupedItems s' \<noteq> [] then [GroupedItemsDropdown] else []))"
proof -
  have f: "focusCycleableItems t' = map Item (ungroupedItems t')
        @ (if groupedItems t' \<noteq> [] then [GroupedItemsDropdown] else [])"
    if "updateFocusCycleableItems t = Some t'" for t t'
    using that by (auto simp: updateFocusCycleableItems_char focusables_def split: if_splits)
  show ?thesis
    unfolding ungroupedItems_add_def ungroupedItems_remove_def components_add_def
      components_remove_def Option.bind_eq_Some_conv
    by (blast intro: f)
qed

theorem focusCycleableItems_after_event_witness:
  "map_option focusCycleableItems (ungroupedItems_add (ComponentView ''c'' 102) None oneGrouped)
     = Some [Item itemA, Item (ComponentView ''c'' 102), GroupedItemsDropdown]
   \<and> map_option focusCycleableItems (ungroupedItems_remove itemA oneGrouped)
     = Some [GroupedItemsDropdown]
   \<and> map_option focusCycleableItems (components_add GroupedItemsDropdown oneItem)
     = Some [Item itemA]
   \<and> map_option focusCycleableItems (components_remove GroupedItemsDropdown oneGrouped)
     = Some [Item itemA, GroupedItemsDropdown]"
proof -
  let ?c = "ComponentView ''c'' 102"
  let ?s1 = "oneGrouped\<lparr>ungroupedItems := [itemA, ?c],
      focusCycleableItems := [Item itemA, Item ?c, GroupedItemsDropdown]\<rparr>"
  let ?s2 = "oneGrouped\<lparr>ungroupedItems := [], focusCycleableItems := [GroupedItemsDropdown]\<rparr>"
  let ?s3 = "oneItem\<lparr>components := [ItemsView, GroupedItemsDropdown],
      focusCycleableItems := [Item itemA]\<rparr>"
  let ?s4 = "oneGrouped\<lparr>components := [ItemsView, Item (ToolbarSeparatorView 0)],
      focusCycleableItems := [Item itemA, GroupedItemsDropdown]\<rparr>"
  have a: "ungroupedItems_add ?c None oneGrouped = Some ?s1"
    by (simp add: ungroupedItems_add_char collection_add_end oneGrouped_def itemA_def)
  have b: "ungroupedItems_remove itemA oneGrouped = Some ?s2"
    by (simp add: ungroupedItems_remove_char oneGrouped_def)
  have c: "components_add GroupedItemsDropdown oneItem = Some ?s3"
    by (simp add: components_add_char focusables_def oneItem_def)
  have d: "components_remove GroupedItemsDropdown oneGrouped = Some ?s4"
    by (simp add: components_remove_char focusables_def oneGrouped_def)
  from focusCycleableItems_after_event [where x = ?c and index = None and s = oneGrouped and s' = ?s1]
    focusCycleableItems_after_event [where x = itemA and s = oneGrouped and s' = ?s2]
    focusCycleableItems_after_event [where v = GroupedItemsDropdown and s = oneItem and s' = ?s3]
    focusCycleableItems_after_event [where v = GroupedItemsDropdown and s = oneGrouped and s' = ?s4]
    a b c d
  show ?thesis
    by (simp add: oneGrouped_def oneItem_def)
qed

text \<open>
  The list is refreshed by those events only, and \<open>groupedItems\<close> has no listener. In
  \<^verbatim>\<open>groupLastItem\<close> the last event is the removal from \<open>ungroupedItems\<close>, which comes before
  the item enters \<open>groupedItems\<close>: in the state reached by grouping a first item the
  dropdown is shown and is not yet in the list.
\<close>

lemma focusCycleableItems_not_refreshed:
  "reachable oneGrouped \<and> groupedItems oneGrouped \<noteq> []
   \<and> GroupedItemsDropdown \<in> set (components oneGrouped)
   \<and> focusCycleableItems oneGrouped = [Item itemA]"
  using reachable_oneGrouped by (simp add: oneGrouped_def)

section \<open>The two parts of the items\<close>

text \<open>
  C2. In every reachable state of a grouping toolbar \<open>ungroupedItems\<close> followed by
  \<open>groupedItems\<close> is \<open>items\<close>, element for element; and this is so again after adding
  an item at any index, removing any item, \<^verbatim>\<open>groupLastItem\<close> and \<^verbatim>\<open>ungroupFirstItem\<close>.
\<close>

theorem items_partition:
  assumes "reachable s"
  shows "ungroupedItems s @ groupedItems s = items s
    \<and> (\<forall>e x index s'. items_add e x index s = Some s'
          \<longrightarrow> ungroupedItems s' @ groupedItems s' = items s')
    \<and> (\<forall>e x s'. items_remove e x s = Some s'
          \<longrightarrow> ungroupedItems s' @ groupedItems s' = items s')
    \<and> (\<forall>s'. groupLastItem s = Some s'
          \<longrightarrow> ungroupedItems s' @ groupedItems s' = items s')
    \<and> (\<forall>s'. ungroupFirstItem s = Some s'
          \<longrightarrow> ungroupedItems s' @ groupedItems s' = items s')"
proof -
  have p: "ungroupedItems t @ groupedItems t = items t" if "reachable t" for t
    using reachable_toolbar_inv [OF that] by (simp add: toolbar_inv_def)
  from assms show ?thesis
    by (blast intro: p reachable.add reachable.remove reachable.group reachable.ungroup)
qed

theorem items_partition_witness:
  "reachable oneItem
   \<and> items_add (exampleEnv 15) itemB None oneItem = Some oneGrouped
   \<and> items_remove (exampleEnv 15) itemB oneGrouped = Some emptyDropdown
   \<and> ungroupFirstItem oneGrouped = Some ungroupedAgain
   \<and> groupLastItem ungroupedAgain = Some groupedAgain
   \<and> ungroupedItems oneItem @ groupedItems oneItem = items oneItem
   \<and> ungroupedItems oneGrouped @ groupedItems oneGrouped = items oneGrouped
   \<and> ungroupedItems emptyDropdown @ groupedItems emptyDropdown = items emptyDropdown
   \<and> ungroupedItems ungroupedAgain @ groupedItems ungroupedAgain = items ungroupedAgain
   \<and> ungroupedItems groupedAgain @ groupedItems groupedAgain = items groupedAgain"
proof -
  have r: "reachable ungroupedAgain"
    using reachable.ungroup [OF reachable_oneGrouped ungroup_oneGrouped] .
  from items_partition [OF reachable_oneItem] items_partition [OF reachable_oneGrouped]
    items_partition [OF r] reachable_oneItem add_b remove_b ungroup_oneGrouped
    group_ungroupedAgain
  show ?thesis
    by blast
qed


section \<open>The resize observer\<close>

text \<open>An empty toolbar that has been measured \<open>calls\<close> times, with a recorded width.\<close>

definition observed :: "nat \<Rightarrow> real option \<Rightarrow> toolbar" where
  "observed calls width =
     \<lparr>shouldGroupWhenFull = True, items = [], ungroupedItems = [],
      groupedItems = [], components = [ItemsView], focusCycleableItems = [],
      updateLock = False, cachedPadding = None, previousWidth = width,
      nextViewId = 0, warnings = [], updateGroupingCalls = calls,
      moves = []\<rparr>"

lemma update_observed:
  "updateGrouping (exampleEnv w) (observed n p) = Some (observed (Suc n) p)"
  by (simp add: updateGrouping_def groupWhileOverflowing.simps measure_defs observed_def)

lemma enable_observed:
  "enableGroupingOnResize (exampleEnv 0) (ToolbarView True) = Some (observed 1 None)"
  using update_observed [of 0 0 None]
  by (simp add: enableGroupingOnResize_def ToolbarView_def observed_def)

text \<open>
  C8, as stated, fails for a width of 0: the test \<^verbatim>\<open>!previousWidth\<close> holds for a recorded 0
  as it does for \<^verbatim>\<open>undefined\<close>, so a second entry of width 0 calls \<^verbatim>\<open>updateGrouping\<close>
  again although its width is the recorded one.
\<close>

theorem resize_same_width_invokes_again:
  "enableGroupingOnResize (exampleEnv 0) (ToolbarView True) = Some (observed 1 None)
   \<and> resizeCallback (exampleEnv 0) 0 (observed 1 None) = Some (observed 2 (Some 0))
   \<and> previousWidth (observed 2 (Some 0)) = Some 0
   \<and> resizeCallback (exampleEnv 0) 0 (observed 2 (Some 0)) = Some (observed 3 (Some 0))
   \<and> updateGroupingCalls (observed 3 (Some 0)) = Suc (updateGroupingCalls (observed 2 (Some 0)))
   \<and> resizeCallbacks (exampleEnv 0) [0, 0] (observed 1 None) = Some (observed 3 (Some 0))"
proof -
  have a: "resizeCallback (exampleEnv 0) 0 (observed 1 None) = Some (observed 2 (Some 0))"
    using update_observed [of 0 1 None]
    by (simp add: resizeCallback_def falsy_def) (simp add: observed_def)
  have b: "resizeCallback (exampleEnv 0) 0 (observed 2 (Some 0)) = Some (observed 3 (Some 0))"
    using update_observed [of 0 2 "Some 0"]
    by (simp add: resizeCallback_def falsy_def) (simp add: observed_def)
  from enable_observed a b show ?thesis
    by (simp add: observed_def)
qed

text \<open>
  C8, amended. The callback does not call \<^verbatim>\<open>updateGrouping\<close> for an entry whose width is the
  recorded width when that width is not 0; it calls it, once, for the first entry (nothing
  recorded yet) and for every entry whose width differs from the recorded one; and the
  width recorded after an entry is the width of that entry.
\<close>

theorem resizeCallback_invokes_updateGrouping:
  assumes "resizeCallback e width s = Some s'"
  shows "(previousWidth s = Some width \<and> width \<noteq> 0
            \<longrightarrow> updateGroupingCalls s' = updateGroupingCalls s)
    \<and> (previousWidth s = None \<longrightarrow> updateGroupingCalls s' = Suc (updateGroupingCalls s))
    \<and> (previousWidth s \<noteq> Some width
            \<longrightarrow> updateGroupingCalls s' = Suc (updateGroupingCalls s))
    \<and> previousWidth s' = Some width"
proof (cases "falsy (previousWidth s) \<or> previousWidth s \<noteq> Some width")
  case True
  with assms obtain t where t: "updateGrouping e s = Some t"
    and s': "s' = t\<lparr>previousWidth := Some width\<rparr>"
    by (auto simp: resizeCallback_def Option.bind_eq_Some_conv)
  from True have "\<not> (previousWidth s = Some width \<and> width \<noteq> 0)"
    by (auto simp: falsy_def)
  with updateGrouping_frame(5) [OF t] show ?thesis
    by (auto simp: s')
next
  case False
  with assms have "s' = s"
    by (simp add: resizeCallback_def)
  with False show ?thesis
    by (auto simp: falsy_def split: option.splits)
qed

theorem resizeCallback_invokes_updateGrouping_witness:
  "resizeCallback (exampleEnv 5) 5 (observed 1 None) = Some (observed 2 (Some 5))
   \<and> updateGroupingCalls (observed 2 (Some 5)) = Suc (updateGroupingCalls (observed 1 None))
   \<and> resizeCallback (exampleEnv 5) 5 (observed 2 (Some 5)) = Some (observed 2 (Some 5))
   \<and> resizeCallback (exampleEnv 7) 7 (observed 2 (Some 5)) = Some (observed 3 (Some 7))
   \<and> updateGroupingCalls (observed 3 (Some 7)) = Suc (updateGroupingCalls (observed 2 (Some 5)))"
proof -
  have a: "resizeCallback (exampleEnv 5) 5 (observed 1 None) = Some (observed 2 (Some 5))"
    using update_observed [of 5 1 None]
    by (simp add: resizeCallback_def falsy_def) (simp add: observed_def)
  have b: "resizeCallback (exampleEnv 5) 5 (observed 2 (Some 5)) = Some (observed 2 (Some 5))"
    by (simp add: resizeCallback_def falsy_def observed_def)
  have c: "resizeCallback (exampleEnv 7) 7 (observed 2 (Some 5)) = Some (observed 3 (Some 7))"
    using update_observed [of 7 2 "Some 5"]
    by (simp add: resizeCallback_def falsy_def) (simp add: observed_def)
  have p: "previousWidth (observed 1 None) = None" "previousWidth (observed 2 (Some 5)) = Some 5"
    by (simp_all add: observed_def)
  from resizeCallback_invokes_updateGrouping [OF a] resizeCallback_invokes_updateGrouping [OF b]
    resizeCallback_invokes_updateGrouping [OF c] a b c p
  show ?thesis
    by simp
qed

section \<open>fillFromConfig\<close>

text \<open>The name in a configuration that produces an item.\<close>

fun configName :: "item \<Rightarrow> string" where
  "configName (ToolbarSeparatorView _) = ''|''"
| "configName (ComponentView name _) = name"

lemma items_add_front:
  assumes "items_add e x (Some 0) s = Some s'"
  shows "items s' = x # items s"
proof -
  from assms have its: "collection_add x (Some 0) (items s) = Some (x # items s)"
    by (auto simp: items_add_def collection_add_front Option.bind_eq_Some_conv split: if_splits)
  show ?thesis
  proof (cases "shouldGroupWhenFull s")
    case False
    with assms its show ?thesis
      by (auto simp: items_add_def Let_def)
  next
    case True
    with assms its obtain s1 where
      s1: "ungroupedItems_add x (Some 0) (s\<lparr>items := x # items s\<rparr>) = Some s1"
      and u: "updateGrouping e s1 = Some s'"
      by (auto simp: items_add_def Let_def Option.bind_eq_Some_conv)
    from s1 have "items s1 = x # items s"
      by (auto simp: ungroupedItems_add_char split: option.splits if_splits)
    with updateGrouping_frame(1) [OF u] show ?thesis
      by simp
  qed
qed

lemma fillFromConfig_map_items:
  "fillFromConfig_map e names s = Some s' \<Longrightarrow>
   \<exists>new. items s' = new @ items s
     \<and> map configName new = rev (filter (\<lambda>name. name = ''|'' \<or> factoryHas e name) names)"
proof (induction names arbitrary: s)
  case Nil
  then show ?case by simp
next
  case (Cons name names)
  let ?s = "s\<lparr>nextViewId := Suc (nextViewId s)\<rparr>"
  from Cons.prems obtain s1 where
    s1: "(if name = ''|''
            then items_add e (ToolbarSeparatorView (nextViewId s)) (Some 0) ?s
            else if factoryHas e name
            then items_add e (ComponentView name (nextViewId s)) (Some 0) ?s
            else Some (s\<lparr>warnings := warnings s @ [name]\<rparr>)) = Some s1"
    and rest: "fillFromConfig_map e names s1 = Some s'"
    by (auto simp: Option.bind_eq_Some_conv)
  from Cons.IH [OF rest] obtain new where
    new: "items s' = new @ items s1"
    "map configName new = rev (filter (\<lambda>name. name = ''|'' \<or> factoryHas e name) names)"
    by blast
  consider (sep) "name = ''|''" | (comp) "name \<noteq> ''|''" "factoryHas e name"
    | (skip) "name \<noteq> ''|''" "\<not> factoryHas e name"
    by blast
  then show ?case
  proof cases
    case sep
    with s1 items_add_front [of e "ToolbarSeparatorView (nextViewId s)" ?s s1]
    have "items s1 = ToolbarSeparatorView (nextViewId s) # items s"
      by simp
    with new sep show ?thesis
      by (intro exI [of _ "new @ [ToolbarSeparatorView (nextViewId s)]"])
        simp
  next
    case comp
    with s1 items_add_front [of e "ComponentView name (nextViewId s)" ?s s1]
    have "items s1 = ComponentView name (nextViewId s) # items s"
      by simp
    with new comp show ?thesis
      by (intro exI [of _ "new @ [ComponentView name (nextViewId s)]"])
        simp
  next
    case skip
    with s1 have "items s1 = items s"
      by auto
    with new skip show ?thesis
      by (intro exI [of _ new]) simp
  qed
qed

text \<open>
  C9. For every configuration, the array after a call of \<^verbatim>\<open>fillFromConfig\<close> is the reverse
  of the array before it, whether or not the call throws later; and when the call
  returns, the new items stand before the old ones in \<open>items\<close>, one for each name that is
  a separator or known to the factory, in the order of the original configuration.
\<close>

theorem fillFromConfig_reverses_config:
  "fst (fillFromConfig e config s) = rev config
   \<and> (\<forall>s'. snd (fillFromConfig e config s) = Some s' \<longrightarrow>
        (\<exists>new. items s' = new @ items s
           \<and> map configName new
               = filter (\<lambda>name. name = ''|'' \<or> factoryHas e name) config))"
proof -
  have "\<exists>new. items s' = new @ items s
           \<and> map configName new = filter (\<lambda>name. name = ''|'' \<or> factoryHas e name) config"
    if "snd (fillFromConfig e config s) = Some s'" for s'
    using fillFromConfig_map_items [of e "rev config" s s'] that
    by (simp add: fillFromConfig_def rev_filter)
  then show ?thesis
    by (simp add: fillFromConfig_def)
qed

definition filled :: toolbar where
  "filled =
     \<lparr>shouldGroupWhenFull = True,
      items = [ComponentView ''bold'' 3, ToolbarSeparatorView 1, ComponentView ''italic'' 0],
      ungroupedItems = [ComponentView ''bold'' 3],
      groupedItems = [ToolbarSeparatorView 1, ComponentView ''italic'' 0],
      components = [ItemsView, Item (ToolbarSeparatorView 2), GroupedItemsDropdown],
      focusCycleableItems = [Item (ComponentView ''bold'' 3), GroupedItemsDropdown],
      updateLock = False, cachedPadding = Some (Num 0), previousWidth = None,
      nextViewId = 4, warnings = [''x''], updateGroupingCalls = 3,
      moves = [Grouped (ComponentView ''italic'' 0), Grouped (ToolbarSeparatorView 1)]\<rparr>"

lemma fill_example:
  "fillFromConfig (exampleEnv 15) [''bold'', ''|'', ''x'', ''italic''] (ToolbarView True)
     = ([''italic'', ''x'', ''|'', ''bold''], Some filled)"
  by (simp add: fillFromConfig_def items_add_def ToolbarView_def ungroupedItems_add_char
   collection_add_def updateGrouping_def groupWhileOverflowing.simps
   groupLastItem_def components_add_char ungroupedItems_remove_char collection_last_def
   focusables_def measure_defs filled_def)

theorem fillFromConfig_reverses_config_witness:
  "fillFromConfig (exampleEnv 15) [''bold'', ''|'', ''x'', ''italic''] (ToolbarView True)
     = ([''italic'', ''x'', ''|'', ''bold''], Some filled)
   \<and> map configName (items filled) = [''bold'', ''|'', ''italic'']"
  using fillFromConfig_reverses_config
    [of "exampleEnv 15" "[''bold'', ''|'', ''x'', ''italic'']" "ToolbarView True"]
    fill_example
  by (simp add: filled_def)

end
